theory Spec2Isabelle
  imports Main "HOL-Library.AList"
begin

unbundle bit_operations_syntax

section \<open>Intel HEX merge-and-fill (\<^verbatim>\<open>srec_cat_fill.py\<close>)\<close>

text \<open>
  A shallow embedding of \<^verbatim>\<open>src/code/scripts/srec_cat_fill.py\<close>.

  \<^item> Python integers are unbounded: addresses, byte values and field values are \<open>int\<close>.
  \<^item> A Python \<open>str\<close> is a \<open>string\<close>; every character stands for the code point of
    the same number (below 256).
  \<^item> A Python \<open>dict\<close> is an association list in insertion order, keys unique;
    \<open>d[k] = v\<close> is \<open>AList.update\<close> (an existing key keeps its place, a new key goes
    to the end), \<open>d.get(k, x)\<close> reads through \<open>map_of\<close>.
  \<^item> Every \<open>raise\<close> is a branch of the model; all three are Python's \<open>ValueError\<close>,
    told apart here by the place that raises.
\<close>

subsection \<open>Errors\<close>

text \<open>
  The source raises \<open>ValueError\<close> in three places: \<open>int(s, 16)\<close> on a string that
  is no literal (\<open>InvalidLiteral\<close>), line 21 (\<open>InvalidExtLength\<close>) and line 45
  (\<open>NoData\<close>). \<open>OSError\<close> is what \<^verbatim>\<open>open(output_file, 'w')\<close> raises in line 88 when
  the path cannot be opened for writing.
\<close>

datatype error = InvalidLiteral | InvalidExtLength | NoData | OSError

subsection \<open>Dictionaries\<close>

type_synonym image = "(int \<times> int) list"

text \<open>The invariant of a Python dictionary: no key occurs twice.\<close>

definition is_dict :: "image \<Rightarrow> bool" where
  "is_dict d = distinct (map fst d)"

definition keys :: "image \<Rightarrow> int list" where
  "keys d = map fst d"

text \<open>\<^verbatim>\<open>d.get(k, default)\<close>\<close>

definition dict_get :: "image \<Rightarrow> int \<Rightarrow> int \<Rightarrow> int" where
  "dict_get d k dflt = (case map_of d k of None \<Rightarrow> dflt | Some v \<Rightarrow> v)"

text \<open>\<^verbatim>\<open>min(d.keys())\<close> and \<^verbatim>\<open>max(d.keys())\<close>, on a dictionary that is not empty.\<close>

definition min_key :: "image \<Rightarrow> int" where
  "min_key d = Min (set (keys d))"

definition max_key :: "image \<Rightarrow> int" where
  "max_key d = Max (set (keys d))"

text \<open>\<^verbatim>\<open>d.update(other)\<close>: each item of \<open>other\<close>, in its order, is stored into \<open>d\<close>.\<close>

definition dict_update :: "image \<Rightarrow> image \<Rightarrow> image" where
  "dict_update d other = fold (\<lambda>(k, v) acc. AList.update k v acc) other d"

subsection \<open>Strings: \<^verbatim>\<open>strip\<close>, slices, \<^verbatim>\<open>int(s, 16)\<close>, \<^verbatim>\<open>{:0wX}\<close>\<close>

text \<open>\<^verbatim>\<open>str.isspace\<close> on the code points below 256, which \<^verbatim>\<open>str.strip()\<close> removes.\<close>

definition is_space :: "char \<Rightarrow> bool" where
  "is_space c = (of_char c \<in> {9, 10, 11, 12, 13, 28, 29, 30, 31, 32, 133, 160 :: nat})"

definition strip :: "string \<Rightarrow> string" where
  "strip s = rev (dropWhile is_space (rev (dropWhile is_space s)))"

text \<open>
  \<^verbatim>\<open>s[i:j]\<close>: a negative index counts from the end, and both ends are clipped to
  the string.
\<close>

definition clip_index :: "int \<Rightarrow> int \<Rightarrow> int" where
  "clip_index n i = (if i < 0 then max (n + i) 0 else min i n)"

definition py_slice :: "int \<Rightarrow> int \<Rightarrow> 'a list \<Rightarrow> 'a list" where
  "py_slice i j s =
     (let n = int (length s); a = clip_index n i; b = clip_index n j
      in take (nat (b - a)) (drop (nat a) s))"

text \<open>
  \<^verbatim>\<open>int(s, 16)\<close>, as CPython reads a \<open>str\<close>: white space on both sides (here the
  C white space and the two non-ASCII spaces below 256), one optional sign, an optional
  \<^verbatim>\<open>0x\<close> or \<^verbatim>\<open>0X\<close> with one optional underscore after it, then at least one digit,
  with single underscores allowed between digits. \<open>None\<close> is \<open>ValueError\<close>.
\<close>

definition int_space :: "char \<Rightarrow> bool" where
  "int_space c = (of_char c \<in> {9, 10, 11, 12, 13, 32, 133, 160 :: nat})"

definition digit_value :: "char \<Rightarrow> int option" where
  "digit_value c =
     (let n = (of_char c :: nat) in
      if 48 \<le> n \<and> n \<le> 57 then Some (int n - 48)
      else if 65 \<le> n \<and> n \<le> 70 then Some (int n - 55)
      else if 97 \<le> n \<and> n \<le> 102 then Some (int n - 87)
      else None)"

fun int_digits :: "int \<Rightarrow> string \<Rightarrow> int option" where
  "int_digits acc [] = Some acc"
| "int_digits acc (c # cs) =
     (case digit_value c of
        Some d \<Rightarrow> int_digits (acc * 16 + d) cs
      | None \<Rightarrow>
          if c = CHR ''_'' then
            (case cs of
               [] \<Rightarrow> None
             | c' # cs' \<Rightarrow>
                 (case digit_value c' of
                    Some d \<Rightarrow> int_digits (acc * 16 + d) cs'
                  | None \<Rightarrow> None))
          else if list_all int_space (c # cs) then Some acc
          else None)"

definition int_body :: "string \<Rightarrow> int option" where
  "int_body s =
     (case s of
        [] \<Rightarrow> None
      | c # cs \<Rightarrow> (case digit_value c of None \<Rightarrow> None | Some d \<Rightarrow> int_digits d cs))"

definition int_prefix :: "string \<Rightarrow> string" where
  "int_prefix s =
     (case s of
        c0 # c1 # r \<Rightarrow>
          if c0 = CHR ''0'' \<and> (c1 = CHR ''x'' \<or> c1 = CHR ''X'') then
            (case r of
               [] \<Rightarrow> r
             | u # r' \<Rightarrow> if u = CHR ''_'' then r' else r)
          else s
      | _ \<Rightarrow> s)"

definition int_sign :: "string \<Rightarrow> int \<times> string" where
  "int_sign s =
     (case s of
        [] \<Rightarrow> (1, s)
      | c # r \<Rightarrow> if c = CHR ''+'' then (1, r) else if c = CHR ''-'' then (- 1, r) else (1, s))"

definition py_int16 :: "string \<Rightarrow> int option" where
  "py_int16 s =
     (let (sign, s') = int_sign (dropWhile int_space s)
      in map_option (\<lambda>n. sign * n) (int_body (int_prefix s')))"

text \<open>
  \<^verbatim>\<open>"{:0wX}".format(n)\<close>: upper-case hexadecimal, padded with zeros to \<open>w\<close>
  characters, the sign of a negative number first and counted in the width.
\<close>

definition hex_digit :: "int \<Rightarrow> char" where
  "hex_digit d = ''0123456789ABCDEF'' ! nat d"

text \<open>The digits of a number that is not negative, without leading zeros.\<close>

function hex_str :: "int \<Rightarrow> string" where
  "hex_str n = (if n < 16 then [hex_digit n] else hex_str (n div 16) @ [hex_digit (n mod 16)])"
  by pat_completeness auto
termination
  by (relation "measure nat") auto

declare hex_str.simps [simp del]

definition format_X :: "nat \<Rightarrow> int \<Rightarrow> string" where
  "format_X w n =
     (if n < 0 then
        (let d = hex_str (- n) in CHR ''-'' # replicate (w - 1 - length d) (CHR ''0'') @ d)
      else
        (let d = hex_str n in replicate (w - length d) (CHR ''0'') @ d))"

subsection \<open>\<^verbatim>\<open>compute_checksum\<close> (lines 37 to 41)\<close>

definition compute_checksum :: "int \<Rightarrow> int \<Rightarrow> int \<Rightarrow> int list \<Rightarrow> int" where
  "compute_checksum byte_count offset record_type data_bytes =
     (let total = byte_count + (drop_bit 8 offset AND 0xFF) + (offset AND 0xFF) + record_type;
          total = total + sum_list data_bytes;
          checksum = (NOT total + 1) AND 0xFF
      in checksum)"

subsection \<open>\<^verbatim>\<open>parse_intel_hex\<close> (lines 3 to 35)\<close>

text \<open>
  The body of the \<^verbatim>\<open>for i in range(byte_count)\<close> loop of lines 26 to 28, over the
  indices still to come: a byte that is no literal raises in the middle of the record.
\<close>

fun store_data :: "string \<Rightarrow> int \<Rightarrow> int list \<Rightarrow> image \<Rightarrow> error + image" where
  "store_data data_field base_addr [] data = Inr data"
| "store_data data_field base_addr (i # is) data =
     (case py_int16 (py_slice (i * 2) (i * 2 + 2) data_field) of
        None \<Rightarrow> Inl InvalidLiteral
      | Some byte_val \<Rightarrow>
          store_data data_field base_addr is (AList.update (base_addr + i) byte_val data))"

text \<open>
  How the body of the loop over the lines ends: \<open>Continue\<close> goes on with the next
  line (also where the source falls through to the end of the body), \<open>Break\<close> leaves
  the loop.
\<close>

datatype control = Continue | Break

text \<open>
  One pass through the body of the \<^verbatim>\<open>for line in f\<close> loop (lines 8 to 34), on the
  state \<open>(data, extended_addr)\<close>.
\<close>

definition parse_line :: "string \<Rightarrow> image \<times> int \<Rightarrow> error + (control \<times> image \<times> int)" where
  "parse_line raw st =
     (let (data, extended_addr) = st;
          line = strip raw
      in if line = [] \<or> hd line \<noteq> CHR '':'' then Inr (Continue, data, extended_addr)
         else
           (case py_int16 (py_slice 1 3 line) of
              None \<Rightarrow> Inl InvalidLiteral
            | Some byte_count \<Rightarrow>
           (case py_int16 (py_slice 3 7 line) of
              None \<Rightarrow> Inl InvalidLiteral
            | Some offset \<Rightarrow>
           (case py_int16 (py_slice 7 9 line) of
              None \<Rightarrow> Inl InvalidLiteral
            | Some record_type \<Rightarrow>
               (let data_field = py_slice 9 (9 + byte_count * 2) line
                in if record_type = 0x04 then
                     if byte_count \<noteq> 2 then Inl InvalidExtLength
                     else
                       (case py_int16 data_field of
                          None \<Rightarrow> Inl InvalidLiteral
                        | Some e \<Rightarrow> Inr (Continue, data, e))
                   else if record_type = 0x00 then
                     (let base_addr = push_bit 16 extended_addr + offset
                      in (case store_data data_field base_addr [0..byte_count - 1] data of
                            Inl e \<Rightarrow> Inl e
                          | Inr data' \<Rightarrow> Inr (Continue, data', extended_addr)))
                   else if record_type = 0x01 then Inr (Break, data, extended_addr)
                   else Inr (Continue, data, extended_addr))))))"

fun parse_lines :: "string list \<Rightarrow> image \<times> int \<Rightarrow> error + image" where
  "parse_lines [] st = Inr (fst st)"
| "parse_lines (raw # rest) st =
     (case parse_line raw st of
        Inl e \<Rightarrow> Inl e
      | Inr (Continue, st') \<Rightarrow> parse_lines rest st'
      | Inr (Break, st') \<Rightarrow> Inr (fst st'))"

text \<open>The file is given as the lines that iterating over it yields.\<close>

definition parse_intel_hex :: "string list \<Rightarrow> error + image" where
  "parse_intel_hex file_lines = parse_lines file_lines ([], 0)"

subsection \<open>\<^verbatim>\<open>write_data_as_hex\<close> (lines 43 to 90)\<close>

text \<open>The format string \<^verbatim>\<open>":{:02X}{:04X}{:02X}{}{:02X}"\<close> of lines 60 and 81.\<close>

definition format_record :: "int \<Rightarrow> int \<Rightarrow> int \<Rightarrow> string \<Rightarrow> int \<Rightarrow> string" where
  "format_record byte_count offset record_type data chksum =
     CHR '':'' # format_X 2 byte_count @ format_X 4 offset @ format_X 2 record_type
       @ data @ format_X 2 chksum"

text \<open>\<^verbatim>\<open>''.join(f"{b:02X}" for b in data_bytes)\<close>\<close>

definition join_bytes :: "int list \<Rightarrow> string" where
  "join_bytes data_bytes = concat (map (format_X 2) data_bytes)"

definition gen_ext_record :: "int \<Rightarrow> string" where
  "gen_ext_record ext_addr =
     (let byte_count = 2;
          offset = 0;
          record_type = 0x04;
          data_bytes = [drop_bit 8 ext_addr AND 0xFF, ext_addr AND 0xFF];
          chksum = compute_checksum byte_count offset record_type data_bytes
      in format_record byte_count offset record_type (join_bytes data_bytes) chksum)"

text \<open>The \<^verbatim>\<open>while current <= max_addr\<close> loop of lines 65 to 84.\<close>

function write_loop :: "image \<Rightarrow> int \<Rightarrow> int \<Rightarrow> int option \<Rightarrow> string list \<Rightarrow> string list" where
  "write_loop merged_data max_addr current last_ext_addr records =
     (if current \<le> max_addr then
        let ext_addr = drop_bit 16 current;
            (records, last_ext_addr) =
              (if Some ext_addr \<noteq> last_ext_addr
               then (records @ [gen_ext_record ext_addr], Some ext_addr)
               else (records, last_ext_addr));
            offset = current AND 0xFFFF;
            chunk_len = min (16 - offset mod 16) (max_addr - current + 1);
            data_bytes = map (\<lambda>i. dict_get merged_data (current + i) 0) [0..chunk_len - 1];
            chksum = compute_checksum chunk_len offset 0x00 data_bytes;
            record = format_record chunk_len offset 0x00 (join_bytes data_bytes) chksum
        in write_loop merged_data max_addr (current + chunk_len) last_ext_addr
             (records @ [record])
      else records)"
  by pat_completeness auto
termination
proof (relation "measure (\<lambda>(merged_data, max_addr, current, last_ext_addr, records).
                   nat (max_addr - current + 1))", goal_cases)
  case 1
  show ?case by simp
next
  case (2 merged_data max_addr current last_ext_addr records ext_addr x xa y offset chunk_len)
  have "offset mod 16 < 16" by simp
  with 2 have "1 \<le> chunk_len" by simp
  with 2 show ?case by simp
qed

text \<open>
  Lines 47 to 87: the records of the output file, in order. The source calls this
  only on a dictionary that is not empty.
\<close>

definition hex_records :: "image \<Rightarrow> string list" where
  "hex_records merged_data =
     (let min_addr = min_key merged_data;
          max_addr = max_key merged_data;
          records = write_loop merged_data max_addr min_addr None []
      in records @ ['':00000001FF''])"

text \<open>
  The file system: the contents of the files, by path, and the paths that can be opened
  for writing. \<^verbatim>\<open>write_data_as_hex\<close> returns the error raised, if any, and the file
  system it leaves: the records are built first (lines 47 to 87), then the file is
  opened, which fails and leaves everything as it was when the path cannot be opened,
  and each record is written with a newline after it.
\<close>

record files =
  contents :: "string \<rightharpoonup> string"
  can_open :: "string \<Rightarrow> bool"

definition write_data_as_hex :: "image \<Rightarrow> string \<Rightarrow> files \<Rightarrow> error option \<times> files" where
  "write_data_as_hex merged_data output_file fs =
     (if merged_data = [] then (Some NoData, fs)
      else
        (let records = hex_records merged_data
         in if \<not> can_open fs output_file then (Some OSError, fs)
            else
              (None, fs\<lparr>contents := (contents fs)(output_file \<mapsto>
                        concat (map (\<lambda>rec. rec @ [CHR 0x0A]) records))\<rparr>)))"

subsection \<open>Merging (the loop of \<^verbatim>\<open>main\<close>, lines 99 to 106)\<close>

text \<open>
  \<^verbatim>\<open>
  merged_data = {}
  for file in args.files:
      file_data = parse_intel_hex(file)
      merged_data.update(file_data)
  \<close>
  \<open>merge\<close> is this loop over the images already parsed.
\<close>

definition merge :: "image list \<Rightarrow> image" where
  "merge images = foldl dict_update [] images"

text \<open>
  The value of the latest image of the sequence that contains the address: the
  sequence is searched from its end.
\<close>

fun latest :: "image list \<Rightarrow> int \<Rightarrow> int option" where
  "latest [] a = None"
| "latest (img # imgs) a =
     (case latest imgs a of Some v \<Rightarrow> Some v | None \<Rightarrow> map_of img a)"

subsection \<open>The passes of the loop\<close>

text \<open>
  The control skeleton of the loop of lines 65 to 84: the values of \<^verbatim>\<open>current\<close> and
  \<^verbatim>\<open>chunk_len\<close> in each pass, in order.
\<close>

function chunks :: "int \<Rightarrow> int \<Rightarrow> (int \<times> int) list" where
  "chunks max_addr current =
     (if current \<le> max_addr then
        let offset = current AND 0xFFFF;
            chunk_len = min (16 - offset mod 16) (max_addr - current + 1)
        in (current, chunk_len) # chunks max_addr (current + chunk_len)
      else [])"
  by pat_completeness auto
termination
proof (relation "measure (\<lambda>(max_addr, current). nat (max_addr - current + 1))", goal_cases)
  case 1
  show ?case by simp
next
  case (2 max_addr current offset chunk_len)
  have "offset mod 16 < 16" by simp
  with 2 have "1 \<le> chunk_len" by simp
  with 2 show ?case by simp
qed

text \<open>The passes of the loop on an image: from its least to its greatest address.\<close>

definition passes :: "image \<Rightarrow> (int \<times> int) list" where
  "passes merged_data = chunks (max_key merged_data) (min_key merged_data)"

text \<open>The \<^verbatim>\<open>data_bytes\<close> of one pass (lines 75 to 79).\<close>

definition chunk_bytes :: "image \<Rightarrow> int \<Rightarrow> int \<Rightarrow> int list" where
  "chunk_bytes merged_data current chunk_len =
     map (\<lambda>i. dict_get merged_data (current + i) 0) [0..chunk_len - 1]"

text \<open>The Data record of one pass (lines 72 and 75 to 82).\<close>

definition data_record :: "image \<Rightarrow> int \<times> int \<Rightarrow> string" where
  "data_record merged_data ch =
     (let (current, chunk_len) = ch;
          offset = current AND 0xFFFF;
          data_bytes = chunk_bytes merged_data current chunk_len;
          chksum = compute_checksum chunk_len offset 0x00 data_bytes
      in format_record chunk_len offset 0x00 (join_bytes data_bytes) chksum)"

text \<open>
  The records of a sequence of passes: each pass appends its Data record, and before
  it an ExtendedLinearAddress record when the segment is not the last one emitted
  (lines 66 to 70).
\<close>

fun render :: "image \<Rightarrow> int option \<Rightarrow> (int \<times> int) list \<Rightarrow> string list" where
  "render merged_data last_ext_addr [] = []"
| "render merged_data last_ext_addr ((current, chunk_len) # rest) =
     (if Some (drop_bit 16 current) \<noteq> last_ext_addr
      then [gen_ext_record (drop_bit 16 current)] else [])
     @ data_record merged_data (current, chunk_len)
     # render merged_data (Some (drop_bit 16 current)) rest"

text \<open>The records of one segment: its ExtendedLinearAddress record, then its Data records.\<close>

definition segment_records :: "image \<Rightarrow> (int \<times> int) list \<Rightarrow> int \<Rightarrow> string list" where
  "segment_records merged_data cs s =
     gen_ext_record s
     # map (data_record merged_data) (filter (\<lambda>ch. drop_bit 16 (fst ch) = s) cs)"

text \<open>
  A reader's view of an output line: its record type field, the two characters after
  the colon, the two of the byte count and the four of the offset.
\<close>

definition record_type_field :: "string \<Rightarrow> string" where
  "record_type_field r = take 2 (drop 7 r)"

definition is_ext_record :: "string \<Rightarrow> bool" where
  "is_ext_record r = (record_type_field r = ''04'')"

subsection \<open>Well-formed lines and the record codec\<close>

text \<open>
  Hexadecimal digits as \<^verbatim>\<open>int(s, 16)\<close> reads them, in either case, and the digits
  that \<^verbatim>\<open>{:02X}\<close> writes.
\<close>

definition is_hex :: "char \<Rightarrow> bool" where
  "is_hex c = (digit_value c \<noteq> None)"

definition is_upper_hex :: "char \<Rightarrow> bool" where
  "is_upper_hex c = (c \<in> set ''0123456789ABCDEF'')"

text \<open>The number that a string of hexadecimal digits denotes.\<close>

definition hex_value :: "string \<Rightarrow> int" where
  "hex_value s = foldl (\<lambda>acc c. acc * 16 + (case digit_value c of None \<Rightarrow> 0 | Some d \<Rightarrow> d)) 0 s"


text \<open>
  A record: byte count, offset, record type, data bytes. The checksum is no field: the
  source never reads it from a line and computes it when it writes one.
\<close>

datatype hex_record = Record (rec_count: int) (rec_offset: int) (rec_type: int) (rec_data: "int list")

text \<open>
  What the source reads from a line that starts with a colon (lines 12 to 34), as a
  value. The fields of lines 12 to 15 are read first, then the record type decides:
  \<^item> an ExtendedLinearAddress record must have byte count 2 (line 21); its data field
    is read as one number (line 22), and the record's two data bytes are that number's
    high and low byte, as line 58 splits it;
  \<^item> a Data record has one data byte for each index below the byte count (line 27);
  \<^item> an EndOfFile record ends the file and a record of any other type is skipped: the
    source reads nothing of their data field, and no record is decoded.
\<close>

datatype decoded = Decoded hex_record | EndOfFile | Skipped

definition decode :: "string \<Rightarrow> error + decoded" where
  "decode line =
     (case py_int16 (py_slice 1 3 line) of
        None \<Rightarrow> Inl InvalidLiteral
      | Some byte_count \<Rightarrow>
     (case py_int16 (py_slice 3 7 line) of
        None \<Rightarrow> Inl InvalidLiteral
      | Some offset \<Rightarrow>
     (case py_int16 (py_slice 7 9 line) of
        None \<Rightarrow> Inl InvalidLiteral
      | Some record_type \<Rightarrow>
          (let data_field = py_slice 9 (9 + byte_count * 2) line
           in if record_type = 0x04 then
                if byte_count \<noteq> 2 then Inl InvalidExtLength
                else
                  (case py_int16 data_field of
                     None \<Rightarrow> Inl InvalidLiteral
                   | Some extended_addr \<Rightarrow>
                       Inr (Decoded (Record byte_count offset record_type
                              [drop_bit 8 extended_addr AND 0xFF, extended_addr AND 0xFF])))
              else if record_type = 0x00 then
                (case those (map (\<lambda>i. py_int16 (py_slice (i * 2) (i * 2 + 2) data_field))
                               [0..byte_count - 1]) of
                   None \<Rightarrow> Inl InvalidLiteral
                 | Some data_bytes \<Rightarrow>
                     Inr (Decoded (Record byte_count offset record_type data_bytes)))
              else if record_type = 0x01 then Inr EndOfFile
              else Inr Skipped))))"

text \<open>
  Encoding a record, as the source does it in lines 59 to 61 and 80 to 82: the checksum
  of the fields, then the format string.
\<close>

definition encode :: "hex_record \<Rightarrow> string" where
  "encode r =
     format_record (rec_count r) (rec_offset r) (rec_type r) (join_bytes (rec_data r))
       (compute_checksum (rec_count r) (rec_offset r) (rec_type r) (rec_data r))"

section \<open>Lemmas\<close>

subsection \<open>Dictionary lemmas\<close>

lemma map_of_fold_update:
  "distinct (map fst other) \<Longrightarrow>
   map_of (fold (\<lambda>(k, v) acc. AList.update k v acc) other d) = map_of d ++ map_of other"
proof (induction other arbitrary: d)
  case Nil
  show ?case by simp
next
  case (Cons p ps)
  obtain k v where p: "p = (k, v)" by (cases p)
  from Cons.prems p have nk: "k \<notin> fst ` set ps" and dps: "distinct (map fst ps)"
    by auto
  from nk have none: "map_of ps k = None"
    by (simp add: map_of_eq_None_iff)
  have "map_of (fold (\<lambda>(k, v) acc. AList.update k v acc) (p # ps) d)
        = map_of (AList.update k v d) ++ map_of ps"
    using Cons.IH [OF dps] p by simp
  also have "\<dots> = (map_of d)(k \<mapsto> v) ++ map_of ps"
    by (simp add: update_conv')
  also have "\<dots> = map_of d ++ map_of (p # ps)"
    using none p by (auto simp: map_add_def fun_eq_iff split: option.splits)
  finally show ?case .
qed

lemma map_of_dict_update:
  "is_dict other \<Longrightarrow> map_of (dict_update d other) = map_of d ++ map_of other"
  by (simp add: dict_update_def is_dict_def map_of_fold_update)

lemma distinct_fold_update:
  "distinct (map fst d) \<Longrightarrow>
   distinct (map fst (fold (\<lambda>(k, v) acc. AList.update k v acc) other d))"
  by (induction other arbitrary: d) (auto simp: distinct_update)

lemma is_dict_dict_update: "is_dict d \<Longrightarrow> is_dict (dict_update d other)"
  by (simp add: dict_update_def is_dict_def distinct_fold_update)

lemma map_of_foldl_dict_update:
  "\<forall>img \<in> set images. is_dict img \<Longrightarrow>
   map_of (foldl dict_update d images) a =
     (case latest images a of Some v \<Rightarrow> Some v | None \<Rightarrow> map_of d a)"
proof (induction images arbitrary: d)
  case Nil
  show ?case by simp
next
  case (Cons img imgs)
  then have "map_of (foldl dict_update (dict_update d img) imgs) a =
     (case latest imgs a of Some v \<Rightarrow> Some v | None \<Rightarrow> map_of (dict_update d img) a)"
    by simp
  moreover have "map_of (dict_update d img) a = (map_of d ++ map_of img) a"
    using Cons.prems by (simp add: map_of_dict_update)
  ultimately show ?case
    by (simp add: map_add_def split: option.splits)
qed

lemma keys_map_of: "a \<in> set (keys d) \<longleftrightarrow> map_of d a \<noteq> None"
  by (simp add: keys_def map_of_eq_None_iff)

lemma latest_None: "latest imgs a = None \<longleftrightarrow> (\<forall>img \<in> set imgs. map_of img a = None)"
  by (induction imgs) (auto split: option.splits)

lemma latest_index:
  "i < length imgs \<Longrightarrow> map_of (imgs ! i) a \<noteq> None \<Longrightarrow>
   (\<forall>j. i < j \<and> j < length imgs \<longrightarrow> map_of (imgs ! j) a = None) \<Longrightarrow>
   latest imgs a = map_of (imgs ! i) a"
proof (induction imgs arbitrary: i)
  case Nil
  then show ?case by simp
next
  case (Cons img imgs)
  show ?case
  proof (cases i)
    case 0
    have "\<forall>x \<in> set imgs. map_of x a = None"
    proof
      fix x assume "x \<in> set imgs"
      then obtain k where k: "k < length imgs" "imgs ! k = x"
        by (auto simp: in_set_conv_nth)
      with Cons.prems(3) 0 have "map_of ((img # imgs) ! Suc k) a = None"
        by (metis Suc_less_eq length_Cons zero_less_Suc)
      with k show "map_of x a = None" by simp
    qed
    then have "latest imgs a = None" by (simp add: latest_None)
    with 0 show ?thesis by simp
  next
    case (Suc k)
    with Cons.prems have k: "k < length imgs" "map_of (imgs ! k) a \<noteq> None"
      by auto
    have "\<forall>j. k < j \<and> j < length imgs \<longrightarrow> map_of (imgs ! j) a = None"
    proof (intro allI impI)
      fix j assume "k < j \<and> j < length imgs"
      with Cons.prems(3) [rule_format, of "Suc j"] Suc show "map_of (imgs ! j) a = None"
        by simp
    qed
    from Cons.IH [OF k this] k(2) Suc show ?thesis
      by (auto split: option.splits)
  qed
qed

lemma merge_latest:
  "\<forall>img \<in> set images. is_dict img \<Longrightarrow> map_of (merge images) a = latest images a"
  using map_of_foldl_dict_update [of images "[]" a]
  by (simp add: merge_def split: option.splits)

lemma merge_pair:
  "is_dict A \<Longrightarrow> is_dict B \<Longrightarrow> map_of (merge [A, B]) a = (map_of A ++ map_of B) a"
  by (simp add: merge_def map_of_dict_update)

subsection \<open>The loop and its passes\<close>

lemma and_ffff: "(c::int) AND 0xFFFF = c mod 65536"
proof -
  have "c AND mask 16 = take_bit 16 c" by (simp add: take_bit_eq_mask)
  then show ?thesis by (simp add: take_bit_eq_mod mask_eq_exp_minus_1)
qed

lemma and_ff: "(c::int) AND 0xFF = c mod 256"
proof -
  have "c AND mask 8 = take_bit 8 c" by (simp add: take_bit_eq_mask)
  then show ?thesis by (simp add: take_bit_eq_mod mask_eq_exp_minus_1)
qed

lemma seg_div: "drop_bit 16 (c::int) = c div 65536"
  by (simp add: drop_bit_eq_div)

lemma offset_mod_16: "((c::int) AND 0xFFFF) mod 16 = c mod 16"
proof -
  have "(16::int) dvd 65536" by simp
  then show ?thesis unfolding and_ffff by (rule mod_mod_cancel)
qed

declare write_loop.simps [simp del] chunks.simps [simp del]

lemma chunks_unfold:
  "current \<le> max_addr \<Longrightarrow>
   chunks max_addr current =
     (current, min (16 - (current AND 0xFFFF) mod 16) (max_addr - current + 1))
     # chunks max_addr (current + min (16 - (current AND 0xFFFF) mod 16) (max_addr - current + 1))"
  by (subst chunks.simps) (simp add: Let_def)

lemma chunks_empty: "max_addr < current \<Longrightarrow> chunks max_addr current = []"
  by (subst chunks.simps) simp

lemma write_loop_render:
  "write_loop md max_addr current le records =
     records @ render md le (chunks max_addr current)"
proof (induction md max_addr current le records rule: write_loop.induct)
  case (1 md max_addr current le records)
  show ?case
  proof (cases "current \<le> max_addr")
    case False
    then show ?thesis
      by (subst write_loop.simps) (simp add: chunks_empty)
  next
    case le: True
    let ?n = "min (16 - (current AND 0xFFFF) mod 16) (max_addr - current + 1)"
    let ?e = "drop_bit 16 current"
    let ?rec = "data_record md (current, ?n)"
    have rec: "?rec = format_record ?n (current AND 0xFFFF) 0
                 (join_bytes (map (\<lambda>i. dict_get md (current + i) 0) [0..?n - 1]))
                 (compute_checksum ?n (current AND 0xFFFF) 0
                    (map (\<lambda>i. dict_get md (current + i) 0) [0..?n - 1]))"
      by (simp add: data_record_def chunk_bytes_def Let_def)
    show ?thesis
    proof (cases "Some ?e \<noteq> le")
      case True
      have sel: "(records @ [gen_ext_record ?e], Some ?e) =
                   (if Some ?e \<noteq> le then (records @ [gen_ext_record ?e], Some ?e)
                    else (records, le))"
        using True by simp
      have "write_loop md max_addr current le records =
              write_loop md max_addr (current + ?n) (Some ?e)
                ((records @ [gen_ext_record ?e]) @ [?rec])"
        using le True
        by (subst write_loop.simps) (simp add: Let_def rec)
      also have "\<dots> = ((records @ [gen_ext_record ?e]) @ [?rec])
                    @ render md (Some ?e) (chunks max_addr (current + ?n))"
        unfolding rec
        by (rule "1.IH" [OF le refl refl sel refl refl refl refl refl])
      finally show ?thesis
        using True le by (simp add: chunks_unfold)
    next
      case False
      have sel: "(records, le) =
                   (if Some ?e \<noteq> le then (records @ [gen_ext_record ?e], Some ?e)
                    else (records, le))"
        using False by simp
      have "write_loop md max_addr current le records =
              write_loop md max_addr (current + ?n) le (records @ [?rec])"
        using le False
        by (subst write_loop.simps) (simp add: Let_def rec)
      also have "\<dots> = (records @ [?rec]) @ render md le (chunks max_addr (current + ?n))"
        unfolding rec
        by (rule "1.IH" [OF le refl refl sel refl refl refl refl refl])
      finally show ?thesis
        using False le by (simp add: chunks_unfold)
    qed
  qed
qed

lemma block_div:
  fixes c d :: int
  assumes "0 \<le> d" and "c mod 16 + d < 16"
  shows "(c + d) div 16 = c div 16"
proof -
  have "c + d = (c mod 16 + d) + 16 * (c div 16)"
    by (simp add: algebra_simps)
  then have "(c + d) div 16 = ((c mod 16 + d) + 16 * (c div 16)) div 16"
    by simp
  also have "\<dots> = c div 16 + (c mod 16 + d) div 16"
    by (rule div_mult_self2) simp
  also have "(c mod 16 + d) div 16 = 0"
    using assms by (intro div_pos_pos_trivial) simp_all
  finally show ?thesis by simp
qed

lemma chunk_len_bounds:
  fixes c mx n :: int
  assumes "c \<le> mx" and "n = min (16 - (c AND 0xFFFF) mod 16) (mx - c + 1)"
  shows "1 \<le> n" and "n \<le> 16" and "c + n - 1 \<le> mx" and "(c + n - 1) div 16 = c div 16"
proof -
  have m: "0 \<le> c mod 16" "c mod 16 < 16" by simp_all
  from assms m show n1: "1 \<le> n" by (simp add: offset_mod_16)
  from assms m show "n \<le> 16" by (simp add: offset_mod_16)
  from assms show "c + n - 1 \<le> mx" by simp
  from assms have "n \<le> 16 - c mod 16" by (simp add: offset_mod_16)
  with n1 have "(c + (n - 1)) div 16 = c div 16"
    by (intro block_div) simp_all
  then show "(c + n - 1) div 16 = c div 16" by (simp add: algebra_simps)
qed

lemma same_block_same_segment:
  "(a::int) div 16 = b div 16 \<Longrightarrow> drop_bit 16 a = drop_bit 16 b"
proof -
  assume h: "a div 16 = b div 16"
  have "a div 65536 = a div 16 div 4096" "b div 65536 = b div 16 div 4096"
    by (simp_all add: zdiv_zmult2_eq [symmetric])
  with h show ?thesis by (simp add: seg_div)
qed

lemma chunk_segment:
  fixes c mx n a :: int
  assumes "c \<le> mx" and "n = min (16 - (c AND 0xFFFF) mod 16) (mx - c + 1)"
    and "c \<le> a" and "a < c + n"
  shows "drop_bit 16 a = drop_bit 16 c"
proof -
  from assms(2) have "n \<le> 16 - c mod 16" by (simp add: offset_mod_16)
  with assms(3,4) have "(c + (a - c)) div 16 = c div 16"
    by (intro block_div) simp_all
  then have "a div 16 = c div 16" by simp
  then show ?thesis by (rule same_block_same_segment)
qed

lemma chunks_props:
  "(c, n) \<in> set (chunks mx cur) \<Longrightarrow>
   cur \<le> c \<and> c \<le> mx \<and> n = min (16 - (c AND 0xFFFF) mod 16) (mx - c + 1)"
proof (induction mx cur rule: chunks.induct)
  case (1 mx cur)
  show ?case
  proof (cases "cur \<le> mx")
    case False
    with "1.prems" show ?thesis by (simp add: chunks_empty)
  next
    case True
    let ?n = "min (16 - (cur AND 0xFFFF) mod 16) (mx - cur + 1)"
    from True "1.prems" have "(c, n) = (cur, ?n) \<or> (c, n) \<in> set (chunks mx (cur + ?n))"
      by (simp add: chunks_unfold)
    then show ?thesis
    proof
      assume "(c, n) = (cur, ?n)"
      with True show ?thesis by simp
    next
      assume "(c, n) \<in> set (chunks mx (cur + ?n))"
      from "1.IH" [OF True refl refl this]
      have ih: "cur + ?n \<le> c" "c \<le> mx" "n = min (16 - (c AND 0xFFFF) mod 16) (mx - c + 1)"
        by simp_all
      have "1 \<le> ?n" by (rule chunk_len_bounds(1) [OF True refl])
      with ih(1) have "cur \<le> c" by linarith
      with ih(2,3) show ?thesis by (intro conjI)
    qed
  qed
qed

lemma chunks_cover:
  "cur \<le> a \<Longrightarrow> a \<le> mx \<Longrightarrow> \<exists>(c, n) \<in> set (chunks mx cur). c \<le> a \<and> a < c + n"
proof (induction mx cur rule: chunks.induct)
  case (1 mx cur)
  let ?n = "min (16 - (cur AND 0xFFFF) mod 16) (mx - cur + 1)"
  from "1.prems" have le: "cur \<le> mx" by simp
  show ?case
  proof (cases "a < cur + ?n")
    case True
    with "1.prems" le show ?thesis by (subst chunks_unfold) auto
  next
    case False
    then have "cur + ?n \<le> a" by simp
    from "1.IH" [OF le refl refl this "1.prems"(2)] le show ?thesis
      by (subst chunks_unfold) auto
  qed
qed

lemma upto_shift: "map (\<lambda>i. c + i) [a..b] = [c + a..c + b]"
proof (induction a b rule: upto.induct)
  case (1 a b)
  show ?case
  proof (cases "a \<le> b")
    case True
    with 1 show ?thesis by (simp add: upto_rec1 [of a b] upto_rec1 [of "c + a" "c + b"] add.assoc)
  next
    case False
    then show ?thesis by simp
  qed
qed

lemma chunk_bytes_upto:
  "chunk_bytes md c n = map (\<lambda>a. dict_get md a 0) [c..c + n - 1]"
proof -
  have "chunk_bytes md c n = map (\<lambda>a. dict_get md a 0) (map (\<lambda>i. c + i) [0..n - 1])"
    by (simp add: chunk_bytes_def comp_def)
  also have "map (\<lambda>i. c + i) [0..n - 1] = [c + 0..c + (n - 1)]"
    by (rule upto_shift)
  also have "[c + 0..c + (n - 1)] = [c..c + n - 1]"
    by (simp add: algebra_simps)
  finally show ?thesis .
qed

lemma chunks_bytes:
  "concat (map (\<lambda>(c, n). chunk_bytes md c n) (chunks mx cur)) =
     map (\<lambda>a. dict_get md a 0) [cur..mx]"
proof (induction mx cur rule: chunks.induct)
  case (1 mx cur)
  show ?case
  proof (cases "cur \<le> mx")
    case False
    then show ?thesis by (simp add: chunks_empty)
  next
    case True
    define k where "k = min (16 - (cur AND 0xFFFF) mod 16) (mx - cur + 1)"
    note b = chunk_len_bounds [OF True k_def]
    have split: "[cur..mx] = [cur..cur + k - 1] @ [cur + k..mx]"
      using upto_split2 [of cur "cur + k - 1" mx] b(1) b(3) by simp
    have ih: "concat (map (\<lambda>(c, n). chunk_bytes md c n) (chunks mx (cur + k))) =
                map (\<lambda>a. dict_get md a 0) [cur + k..mx]"
      unfolding k_def by (rule "1.IH" [OF True refl refl])
    have "chunks mx cur = (cur, k) # chunks mx (cur + k)"
      unfolding k_def by (rule chunks_unfold [OF True])
    then have "concat (map (\<lambda>(c, n). chunk_bytes md c n) (chunks mx cur)) =
            chunk_bytes md cur k @ map (\<lambda>a. dict_get md a 0) [cur + k..mx]"
      by (simp add: ih)
    also have "\<dots> = map (\<lambda>a. dict_get md a 0) [cur..mx]"
      by (simp add: chunk_bytes_upto split)
    finally show ?thesis .
  qed
qed

lemma seg_mono: "(a::int) \<le> b \<Longrightarrow> drop_bit 16 a \<le> drop_bit 16 b"
  by (simp add: seg_div zdiv_mono1)

lemma seg_succ: "drop_bit 16 ((a::int) + 1) \<le> drop_bit 16 a + 1"
proof -
  have "(a + 1) div 65536 \<le> (a + 65536) div 65536"
    by (rule zdiv_mono1) simp_all
  then show ?thesis by (simp add: seg_div)
qed

lemma filter_segment_empty:
  assumes "s < drop_bit 16 cur"
  shows "filter (\<lambda>ch. drop_bit 16 (fst ch) = s) (chunks mx cur) = []"
proof -
  have "drop_bit 16 (fst ch) \<noteq> s" if "ch \<in> set (chunks mx cur)" for ch
  proof -
    obtain c n where ch: "ch = (c, n)" by (cases ch)
    with that chunks_props [of c n mx cur] have "cur \<le> c" by simp
    then have "drop_bit 16 cur \<le> drop_bit 16 c" by (rule seg_mono)
    with assms ch show ?thesis by simp
  qed
  then show ?thesis by (simp add: filter_empty_conv)
qed

lemma segment_records_Cons:
  "drop_bit 16 c \<noteq> s \<Longrightarrow> segment_records md ((c, n) # cs) s = segment_records md cs s"
  by (simp add: segment_records_def)

lemma segment_records_map_Cons:
  "drop_bit 16 c < lo \<Longrightarrow>
   map (segment_records md ((c, n) # cs)) [lo..hi] = map (segment_records md cs) [lo..hi]"
  by (rule map_cong) (auto simp: segment_records_Cons)

lemma render_segments:
  "cur \<le> mx \<Longrightarrow>
   render md le (chunks mx cur) =
     (if le = Some (drop_bit 16 cur) then [] else [gen_ext_record (drop_bit 16 cur)])
     @ map (data_record md) (filter (\<lambda>ch. drop_bit 16 (fst ch) = drop_bit 16 cur) (chunks mx cur))
     @ concat (map (segment_records md (chunks mx cur)) [drop_bit 16 cur + 1..drop_bit 16 mx])"
proof (induction mx cur arbitrary: le rule: chunks.induct)
  case (1 mx cur)
  note le = \<open>cur \<le> mx\<close>
  define k where "k = min (16 - (cur AND 0xFFFF) mod 16) (mx - cur + 1)"
  define S where "S = drop_bit 16 cur"
  define S' where "S' = drop_bit 16 (cur + k)"
  define cs' where "cs' = chunks mx (cur + k)"
  define E where "E = (if le = Some S then [] else [gen_ext_record S])"
  note b = chunk_len_bounds [OF le k_def]
  have cs: "chunks mx cur = (cur, k) # cs'"
    unfolding k_def cs'_def by (rule chunks_unfold [OF le])
  have r: "render md le (chunks mx cur) = E @ data_record md (cur, k) # render md (Some S) cs'"
    by (auto simp: cs E_def S_def)
  have tail: "map (segment_records md (chunks mx cur)) [S + 1..drop_bit 16 mx]
                = map (segment_records md cs') [S + 1..drop_bit 16 mx]"
    unfolding cs by (rule segment_records_map_Cons) (simp add: S_def)
  have goal_eq: "E @ map (data_record md) (filter (\<lambda>ch. drop_bit 16 (fst ch) = S) (chunks mx cur))
         @ concat (map (segment_records md (chunks mx cur)) [S + 1..drop_bit 16 mx])
       = E @ data_record md (cur, k) # map (data_record md) (filter (\<lambda>ch. drop_bit 16 (fst ch) = S) cs')
         @ concat (map (segment_records md cs') [S + 1..drop_bit 16 mx])"
    unfolding tail by (simp add: cs S_def)
  have rest: "render md (Some S) cs' =
          map (data_record md) (filter (\<lambda>ch. drop_bit 16 (fst ch) = S) cs')
          @ concat (map (segment_records md cs') [S + 1..drop_bit 16 mx])"
  proof (cases "cur + k \<le> mx")
    case False
    with b(3) have mx: "mx = cur + k - 1" by simp
    have "drop_bit 16 mx = S"
      unfolding S_def mx by (rule same_block_same_segment) (rule b(4))
    moreover from False have "cs' = []" by (simp add: cs'_def chunks_empty)
    ultimately show ?thesis by simp
  next
    case True
    have ih: "render md (Some S) cs' =
        (if Some S = Some S' then [] else [gen_ext_record S'])
        @ map (data_record md) (filter (\<lambda>ch. drop_bit 16 (fst ch) = S') cs')
        @ concat (map (segment_records md cs') [S' + 1..drop_bit 16 mx])"
      unfolding cs'_def S'_def using "1.IH" [OF le refl refl, of "Some S"] True
      by (simp add: k_def)
    have "drop_bit 16 (cur + k - 1) = S"
      unfolding S_def by (rule same_block_same_segment) (rule b(4))
    with seg_succ [of "cur + k - 1"] have up: "S' \<le> S + 1" by (simp add: S'_def)
    have lo: "S \<le> S'"
      unfolding S_def S'_def using b(1) by (intro seg_mono) simp
    have hi: "S' \<le> drop_bit 16 mx"
      unfolding S'_def using True by (rule seg_mono)
    show ?thesis
    proof (cases "S' = S")
      case True
      with ih show ?thesis by simp
    next
      case False
      with up lo have S': "S' = S + 1" by simp
      have empty: "filter (\<lambda>ch. drop_bit 16 (fst ch) = S) cs' = []"
        unfolding cs'_def by (rule filter_segment_empty) (use S' in \<open>simp add: S'_def\<close>)
      have "[S + 1..drop_bit 16 mx] = S' # [S' + 1..drop_bit 16 mx]"
        using hi S' by (simp add: upto_rec1)
      then show ?thesis
        using ih False empty by (simp add: segment_records_def)
    qed
  qed
  show ?case
    using r rest goal_eq by (simp add: E_def S_def)
qed

lemma min_key_le_max_key: "md \<noteq> [] \<Longrightarrow> min_key md \<le> max_key md"
  by (simp add: keys_def min_key_def max_key_def)

lemma hex_records_render:
  "hex_records md = render md None (passes md) @ ['':00000001FF'']"
  by (simp add: hex_records_def passes_def write_loop_render Let_def)

lemma checksum_twos_complement:
  "compute_checksum bc off rt data =
     (- (bc + (drop_bit 8 off AND 0xFF) + (off AND 0xFF) + rt + sum_list data)) mod 256"
  by (simp add: compute_checksum_def Let_def and_ff not_int_def)

lemma checksum_sum_zero:
  "(bc + (drop_bit 8 off AND 0xFF) + (off AND 0xFF) + rt + sum_list data
      + compute_checksum bc off rt data) mod 256 = 0"
  unfolding checksum_twos_complement
  by (simp add: mod_add_right_eq)

lemma render_cases:
  "r \<in> set (render md le cs) \<Longrightarrow>
   (\<exists>s. r = gen_ext_record s) \<or> (\<exists>ch \<in> set cs. r = data_record md ch)"
  by (induction md le cs rule: render.induct) (auto split: if_splits)

lemma render_data: "ch \<in> set cs \<Longrightarrow> data_record md ch \<in> set (render md le cs)"
  by (induction md le cs rule: render.induct) auto

lemma eof_record: "'':00000001FF'' = format_record 0 0 1 (join_bytes []) (compute_checksum 0 0 1 [])"
  by code_simp

lemma data_record_fields:
  "data_record md (c, n) =
     format_record n (c AND 0xFFFF) 0 (join_bytes (chunk_bytes md c n))
       (compute_checksum n (c AND 0xFFFF) 0 (chunk_bytes md c n))"
  by (simp add: data_record_def Let_def)

lemma gen_ext_record_fields:
  "gen_ext_record s =
     format_record 2 0 4 (join_bytes [drop_bit 8 s AND 0xFF, s AND 0xFF])
       (compute_checksum 2 0 4 [drop_bit 8 s AND 0xFF, s AND 0xFF])"
  by (simp add: gen_ext_record_def Let_def)

lemma chunks_partition:
  "concat (map (\<lambda>(c, n). [c..c + n - 1]) (chunks mx cur)) = [cur..mx]"
proof (induction mx cur rule: chunks.induct)
  case (1 mx cur)
  show ?case
  proof (cases "cur \<le> mx")
    case False
    then show ?thesis by (simp add: chunks_empty)
  next
    case True
    define k where "k = min (16 - (cur AND 0xFFFF) mod 16) (mx - cur + 1)"
    note b = chunk_len_bounds [OF True k_def]
    have split: "[cur..mx] = [cur..cur + k - 1] @ [cur + k..mx]"
      using upto_split2 [of cur "cur + k - 1" mx] b(1) b(3) by simp
    have ih: "concat (map (\<lambda>(c, n). [c..c + n - 1]) (chunks mx (cur + k))) = [cur + k..mx]"
      unfolding k_def by (rule "1.IH" [OF True refl refl])
    have "chunks mx cur = (cur, k) # chunks mx (cur + k)"
      unfolding k_def by (rule chunks_unfold [OF True])
    then show ?thesis by (simp add: ih split)
  qed
qed

lemma dict_get_fill:
  "dict_get md a 0 = (case map_of md a of None \<Rightarrow> 0 | Some v \<Rightarrow> v)"
  by (simp add: dict_get_def)

lemma chunk_bytes_nth:
  "0 \<le> i \<Longrightarrow> i < n \<Longrightarrow> chunk_bytes md c n ! nat i = dict_get md (c + i) 0"
  by (simp add: chunk_bytes_upto)

lemma length_chunk_bytes: "length (chunk_bytes md c n) = nat n"
  by (simp add: chunk_bytes_def)

lemma record_checksum_ok:
  assumes "r = format_record bc off rt (join_bytes data) (compute_checksum bc off rt data)"
    and "rt = 0x00 \<or> rt = 0x04 \<or> rt = 0x01"
  shows "\<exists>bc off rt data.
       r = format_record bc off rt (join_bytes data) (compute_checksum bc off rt data)
       \<and> (rt = 0x00 \<or> rt = 0x04 \<or> rt = 0x01)
       \<and> compute_checksum bc off rt data
           = (- (bc + (drop_bit 8 off AND 0xFF) + (off AND 0xFF) + rt + sum_list data)) mod 256
       \<and> (bc + (drop_bit 8 off AND 0xFF) + (off AND 0xFF) + rt + sum_list data
            + compute_checksum bc off rt data) mod 256 = 0
       \<and> 0 \<le> compute_checksum bc off rt data \<and> compute_checksum bc off rt data < 256"
proof (intro exI conjI)
  show "r = format_record bc off rt (join_bytes data) (compute_checksum bc off rt data)"
    by (rule assms(1))
  show "rt = 0x00 \<or> rt = 0x04 \<or> rt = 0x01"
    by (rule assms(2))
  show "compute_checksum bc off rt data
           = (- (bc + (drop_bit 8 off AND 0xFF) + (off AND 0xFF) + rt + sum_list data)) mod 256"
    by (rule checksum_twos_complement)
  show "(bc + (drop_bit 8 off AND 0xFF) + (off AND 0xFF) + rt + sum_list data
            + compute_checksum bc off rt data) mod 256 = 0"
    by (rule checksum_sum_zero)
  show "0 \<le> compute_checksum bc off rt data"
    by (simp add: checksum_twos_complement)
  show "compute_checksum bc off rt data < 256"
    by (simp add: checksum_twos_complement)
qed

subsection \<open>Field widths\<close>

lemma length_hex_str:
  "0 < k \<Longrightarrow> n < 16 ^ k \<Longrightarrow> length (hex_str n) \<le> k"
proof (induction n arbitrary: k rule: hex_str.induct)
  case (1 n)
  show ?case
  proof (cases "n < 16")
    case True
    with "1.prems" show ?thesis by (subst hex_str.simps) simp
  next
    case False
    have "1 < k"
    proof (rule ccontr)
      assume "\<not> 1 < k"
      with "1.prems" have "k = 1" by simp
      with "1.prems" False show False by simp
    qed
    then obtain j where k: "k = Suc j" and j: "0 < j" by (cases k) auto
    have "n div 16 < 16 ^ j"
    proof (rule ccontr)
      assume "\<not> n div 16 < 16 ^ j"
      then have "16 * 16 ^ j \<le> 16 * (n div 16)" by simp
      moreover have "16 * (n div 16) + n mod 16 = n" by (rule mult_div_mod_eq)
      moreover have "0 \<le> n mod 16" by simp
      ultimately have "16 * 16 ^ j \<le> n" by linarith
      with "1.prems"(2) k show False by simp
    qed
    from "1.IH" [OF False j this] k False show ?thesis
      by (subst hex_str.simps) simp
  qed
qed

lemma length_format_X:
  "0 \<le> n \<Longrightarrow> n < 16 ^ w \<Longrightarrow> 0 < w \<Longrightarrow> length (format_X w n) = w"
  using length_hex_str [of w n] by (simp add: format_X_def Let_def)

lemma record_type_field_format:
  assumes "0 \<le> bc" "bc < 256" "0 \<le> off" "off < 65536" "0 \<le> rt" "rt < 256"
  shows "record_type_field (format_record bc off rt d chk) = format_X 2 rt"
proof -
  have "length (format_X 2 bc) = 2" "length (format_X 4 off) = 4" "length (format_X 2 rt) = 2"
    using assms by (simp_all add: length_format_X)
  then show ?thesis
    by (simp add: record_type_field_def format_record_def)
qed

lemma is_ext_gen_ext_record: "is_ext_record (gen_ext_record s)"
proof -
  have "format_X 2 4 = ''04''" by code_simp
  then show ?thesis
    by (simp add: is_ext_record_def gen_ext_record_def Let_def record_type_field_format)
qed

lemma not_is_ext_data_record:
  assumes "1 \<le> n" "n \<le> 16"
  shows "\<not> is_ext_record (data_record md (c, n))"
proof -
  have "format_X 2 0 = ''00''" by code_simp
  moreover have "0 \<le> c AND 0xFFFF" "c AND 0xFFFF < 65536" by (simp_all add: and_ffff)
  ultimately show ?thesis
    using assms
    by (simp add: is_ext_record_def data_record_def Let_def record_type_field_format)
qed

lemma not_is_ext_eof: "\<not> is_ext_record '':00000001FF''"
  by (simp add: is_ext_record_def record_type_field_def)

subsection \<open>Segments\<close>

lemma segment_has_address:
  fixes mn mx s :: int
  assumes "mn \<le> mx" and "drop_bit 16 mn \<le> s" and "s \<le> drop_bit 16 mx"
  shows "\<exists>a. mn \<le> a \<and> a \<le> mx \<and> drop_bit 16 a = s"
proof (cases "mn \<le> s * 65536")
  case True
  have "s * 65536 \<le> mx div 65536 * 65536"
    using assms(3) by (simp add: seg_div)
  also have "\<dots> \<le> mx"
    using mult_div_mod_eq [of 65536 mx] pos_mod_sign [of 65536 mx] by linarith
  finally have "s * 65536 \<le> mx" .
  moreover have "drop_bit 16 (s * 65536) = s" by (simp add: seg_div)
  ultimately show ?thesis using True by blast
next
  case False
  then have "s * 65536 \<le> mn" by simp
  then have "s * 65536 div 65536 \<le> mn div 65536" by (rule zdiv_mono1) simp
  then have "s \<le> drop_bit 16 mn" by (simp add: seg_div)
  with assms(2) have "drop_bit 16 mn = s" by simp
  with assms(1) show ?thesis by blast
qed

lemma passes_segment:
  assumes "(c, n) \<in> set (passes md)" and "c \<le> a" and "a < c + n"
  shows "drop_bit 16 a = drop_bit 16 c"
proof -
  from assms(1) have "(c, n) \<in> set (chunks (max_key md) (min_key md))"
    by (simp add: passes_def)
  from chunks_props [OF this]
  have p: "c \<le> max_key md" "n = min (16 - (c AND 0xFFFF) mod 16) (max_key md - c + 1)"
    by simp_all
  from p assms(2,3) show ?thesis by (rule chunk_segment)
qed

lemma passes_bounds:
  assumes "(c, n) \<in> set (passes md)"
  shows "min_key md \<le> c" and "c \<le> max_key md" and "1 \<le> n" and "n \<le> 16"
proof -
  from assms have "(c, n) \<in> set (chunks (max_key md) (min_key md))"
    by (simp add: passes_def)
  from chunks_props [OF this]
  have p: "min_key md \<le> c" "c \<le> max_key md"
    "n = min (16 - (c AND 0xFFFF) mod 16) (max_key md - c + 1)"
    by simp_all
  from p show "min_key md \<le> c" "c \<le> max_key md" by simp_all
  from chunk_len_bounds [OF p(2) p(3)] show "1 \<le> n" "n \<le> 16" by simp_all
qed

lemma segment_has_pass:
  assumes "md \<noteq> []" and "drop_bit 16 (min_key md) \<le> s" and "s \<le> drop_bit 16 (max_key md)"
  shows "\<exists>ch \<in> set (passes md). drop_bit 16 (fst ch) = s"
proof -
  from segment_has_address [OF min_key_le_max_key [OF assms(1)] assms(2,3)]
  obtain a where a: "min_key md \<le> a" "a \<le> max_key md" "drop_bit 16 a = s" by blast
  from chunks_cover [OF a(1,2)]
  obtain c n where mem: "(c, n) \<in> set (passes md)" and ca: "c \<le> a" "a < c + n"
    by (auto simp: passes_def)
  from passes_segment [OF mem ca] a(3) have "drop_bit 16 (fst (c, n)) = s" by simp
  with mem show ?thesis by blast
qed

lemma hex_records_segments:
  assumes "md \<noteq> []"
  shows "hex_records md =
     concat (map (segment_records md (passes md))
               [drop_bit 16 (min_key md)..drop_bit 16 (max_key md)])
     @ ['':00000001FF'']"
proof -
  note le = min_key_le_max_key [OF assms]
  have "drop_bit 16 (min_key md) \<le> drop_bit 16 (max_key md)"
    using le by (rule seg_mono)
  then have u: "[drop_bit 16 (min_key md)..drop_bit 16 (max_key md)]
        = drop_bit 16 (min_key md) # [drop_bit 16 (min_key md) + 1..drop_bit 16 (max_key md)]"
    by (rule upto_rec1)
  have "render md None (passes md) =
          concat (map (segment_records md (passes md))
               [drop_bit 16 (min_key md)..drop_bit 16 (max_key md)])"
    unfolding u passes_def using render_segments [OF le, of md None]
    by (simp add: segment_records_def)
  then show ?thesis by (simp add: hex_records_render)
qed

lemma filter_ext_segment_records:
  "filter is_ext_record (segment_records md (passes md) s) = [gen_ext_record s]"
proof -
  have "\<not> is_ext_record (data_record md ch)" if "ch \<in> set (passes md)" for ch
  proof -
    obtain c n where ch: "ch = (c, n)" by (cases ch)
    with that passes_bounds(3,4) [of c n md] show ?thesis
      by (simp add: not_is_ext_data_record)
  qed
  then have "filter is_ext_record
               (map (data_record md) (filter (\<lambda>ch. drop_bit 16 (fst ch) = s) (passes md))) = []"
    by (simp add: filter_empty_conv)
  then show ?thesis
    by (simp add: segment_records_def is_ext_gen_ext_record)
qed

lemma filter_ext_hex_records:
  assumes "md \<noteq> []"
  shows "filter is_ext_record (hex_records md) =
           map gen_ext_record [drop_bit 16 (min_key md)..drop_bit 16 (max_key md)]"
proof -
  have "filter is_ext_record (concat (map (segment_records md (passes md)) ss))
          = map gen_ext_record ss" for ss
    by (induction ss) (simp_all add: filter_ext_segment_records)
  then show ?thesis
    by (simp add: hex_records_segments [OF assms] not_is_ext_eof)
qed

subsection \<open>Reading hexadecimal digits\<close>

lemma is_hex_plain:
  assumes "is_hex c"
  shows "\<not> int_space c" and "c \<noteq> CHR ''+''" and "c \<noteq> CHR ''-''" and "c \<noteq> CHR ''_''"
    and "c \<noteq> CHR ''x''" and "c \<noteq> CHR ''X''" and "\<not> is_space c" and "c \<noteq> CHR '':''"
  using assms
  by (auto simp: is_hex_def digit_value_def int_space_def is_space_def Let_def split: if_splits)

lemma digit_value_range: "digit_value c = Some d \<Longrightarrow> 0 \<le> d \<and> d < 16"
  by (auto simp: digit_value_def Let_def split: if_splits)

lemma int_digits_hex:
  "list_all is_hex cs \<Longrightarrow>
   int_digits acc cs =
     Some (foldl (\<lambda>acc c. acc * 16 + (case digit_value c of None \<Rightarrow> 0 | Some d \<Rightarrow> d)) acc cs)"
  by (induction cs arbitrary: acc) (auto simp: is_hex_def)

lemma not_is_hex_x: "\<not> is_hex CHR ''x''" "\<not> is_hex CHR ''X''"
  by (simp_all add: is_hex_def digit_value_def)

lemma int_prefix_hex: "list_all is_hex s \<Longrightarrow> int_prefix s = s"
proof (cases s)
  case Nil
  then show ?thesis by (simp add: int_prefix_def)
next
  case (Cons c0 r)
  assume h: "list_all is_hex s"
  show ?thesis
  proof (cases r)
    case Nil
    with Cons show ?thesis by (simp add: int_prefix_def)
  next
    case (Cons c1 r')
    with h \<open>s = c0 # r\<close> have "is_hex c1" by simp
    then have "c1 \<noteq> CHR ''x''" "c1 \<noteq> CHR ''X''" by (auto simp: not_is_hex_x)
    with Cons \<open>s = c0 # r\<close> show ?thesis by (simp add: int_prefix_def)
  qed
qed

lemma py_int16_hex:
  assumes "s \<noteq> []" and "list_all is_hex s"
  shows "py_int16 s = Some (hex_value s)"
proof -
  from assms obtain c cs where s: "s = c # cs" and c: "is_hex c" and cs: "list_all is_hex cs"
    by (cases s) auto
  from c obtain d where d: "digit_value c = Some d" by (auto simp: is_hex_def)
  have "dropWhile int_space s = s" using s c by (simp add: is_hex_plain)
  moreover have "int_sign s = (1, s)" using s c by (simp add: int_sign_def is_hex_plain)
  moreover have "int_body s = Some (hex_value s)"
    using s d cs by (simp add: int_body_def int_digits_hex hex_value_def)
  ultimately show ?thesis
    using assms(2) by (simp add: py_int16_def int_prefix_hex)
qed

lemma py_int16_empty: "py_int16 [] = None"
  by (simp add: py_int16_def int_sign_def int_prefix_def int_body_def)

lemma digit_nonneg: "0 \<le> (case digit_value c of None \<Rightarrow> 0 | Some d \<Rightarrow> d)"
  by (cases "digit_value c") (auto dest: digit_value_range)

lemma foldl_hex_nonneg:
  "0 \<le> acc \<Longrightarrow>
   0 \<le> foldl (\<lambda>acc c. acc * 16 + (case digit_value c of None \<Rightarrow> 0 | Some d \<Rightarrow> d)) acc s"
proof (induction s arbitrary: acc)
  case Nil
  then show ?case by simp
next
  case (Cons c s)
  have "0 \<le> acc * 16 + (case digit_value c of None \<Rightarrow> 0 | Some d \<Rightarrow> d)"
    using Cons.prems digit_nonneg [of c] by linarith
  from Cons.IH [OF this] show ?case by simp
qed

lemma hex_value_nonneg: "0 \<le> hex_value s"
  unfolding hex_value_def by (rule foldl_hex_nonneg) simp


subsection \<open>Slices and \<^verbatim>\<open>strip\<close>\<close>

lemma py_slice_nat: "py_slice (int i) (int j) s = take (j - i) (drop i s)"
proof -
  have c: "clip_index (int (length s)) (int k) = int (min k (length s))" for k
    by (simp add: clip_index_def)
  have "py_slice (int i) (int j) s
          = take (min j (length s) - min i (length s)) (drop (min i (length s)) s)"
    by (simp add: py_slice_def Let_def c nat_diff_distrib')
  also have "\<dots> = take (j - i) (drop i s)"
  proof (cases "i \<le> length s")
    case True
    then show ?thesis by (cases "j \<le> length s") (simp_all add: min_def)
  next
    case False
    then show ?thesis by simp
  qed
  finally show ?thesis .
qed

lemma py_slice_append:
  "j \<le> length p \<Longrightarrow> py_slice (int i) (int j) (p @ s) = py_slice (int i) (int j) p"
  by (simp add: py_slice_nat)

lemma strip_line:
  assumes "list_all is_space ws" and "p \<noteq> []" and "\<not> is_space (hd p)" and "\<not> is_space (last p)"
  shows "\<exists>s'. strip (ws @ p @ s) = p @ s'"
proof -
  from assms(2,3) obtain c p' where p: "p = c # p'" and c: "\<not> is_space c" by (cases p) auto
  have "dropWhile is_space (ws @ p @ s) = p @ s"
    using assms(1) p c by (simp add: dropWhile_append list_all_iff)
  moreover have "\<exists>s'. rev (dropWhile is_space (rev (p @ s))) = p @ s'"
  proof (cases "\<forall>x \<in> set (rev s). is_space x")
    case True
    from assms(2,4) have "dropWhile is_space (rev p) = rev p"
      by (cases p rule: rev_cases) auto
    with True have "rev (dropWhile is_space (rev (p @ s))) = p @ []"
      by (simp add: dropWhile_append)
    then show ?thesis by blast
  next
    case False
    then have "dropWhile is_space (rev s @ rev p) = dropWhile is_space (rev s) @ rev p"
      by (subst dropWhile_append) auto
    then have "rev (dropWhile is_space (rev (p @ s))) = p @ rev (dropWhile is_space (rev s))"
      by simp
    then show ?thesis by blast
  qed
  ultimately show ?thesis by (simp add: strip_def)
qed

lemma py_slice_fields:
  "py_slice 1 3 s = take 2 (drop 1 s)"
  "py_slice 3 7 s = take 4 (drop 3 s)"
  "py_slice 7 9 s = take 2 (drop 7 s)"
  using py_slice_nat [of 1 3 s] py_slice_nat [of 3 7 s] py_slice_nat [of 7 9 s]
  by simp_all

lemma py_slice_data_field:
  "0 \<le> bc \<Longrightarrow> py_slice 9 (9 + bc * 2) s = take (2 * nat bc) (drop 9 s)"
  using py_slice_nat [of 9 "9 + 2 * nat bc" s] by (simp add: algebra_simps)

lemma py_slice_pair:
  assumes "0 \<le> i"
  shows "py_slice (i * 2) (i * 2 + 2) df = take 2 (drop (2 * nat i) df)"
  using py_slice_nat [of "2 * nat i" "2 * nat i + 2" df] assms by (simp add: algebra_simps)

lemma list_all_take_drop: "list_all P xs \<Longrightarrow> list_all P (take n (drop m xs))"
  by (auto simp: list_all_iff dest: in_set_takeD in_set_dropD)

lemma py_int16_pair:
  assumes "list_all is_hex df" and "0 \<le> i" and "i * 2 + 2 \<le> int (length df)"
  shows "py_int16 (py_slice (i * 2) (i * 2 + 2) df)
           = Some (hex_value (py_slice (i * 2) (i * 2 + 2) df))"
proof (rule py_int16_hex)
  have "length (take 2 (drop (2 * nat i) df)) = 2"
    using assms(2,3) by simp
  then show "py_slice (i * 2) (i * 2 + 2) df \<noteq> []"
    unfolding py_slice_pair [OF assms(2)] by auto
  show "list_all is_hex (py_slice (i * 2) (i * 2 + 2) df)"
    unfolding py_slice_pair [OF assms(2)] using assms(1) by (rule list_all_take_drop)
qed

lemma store_data_hex:
  assumes "list_all is_hex df" and "\<forall>i \<in> set idx. 0 \<le> i \<and> i * 2 + 2 \<le> int (length df)"
  shows "\<exists>data'. store_data df base idx data = Inr data'
          \<and> (\<forall>a. map_of data' a =
                (if a - base \<in> set idx
                 then Some (hex_value (py_slice ((a - base) * 2) ((a - base) * 2 + 2) df))
                 else map_of data a))
          \<and> (is_dict data \<longrightarrow> is_dict data')"
  using assms(2)
proof (induction idx arbitrary: data)
  case Nil
  then show ?case by simp
next
  case (Cons i idx)
  let ?v = "hex_value (py_slice (i * 2) (i * 2 + 2) df)"
  from Cons.prems have i: "0 \<le> i" "i * 2 + 2 \<le> int (length df)" by simp_all
  have step: "store_data df base (i # idx) data
                = store_data df base idx (AList.update (base + i) ?v data)"
    by (simp add: py_int16_pair [OF assms(1) i])
  from Cons.prems have "\<forall>i \<in> set idx. 0 \<le> i \<and> i * 2 + 2 \<le> int (length df)" by simp
  from Cons.IH [OF this, of "AList.update (base + i) ?v data"]
  obtain data' where d: "store_data df base idx (AList.update (base + i) ?v data) = Inr data'"
    and m: "\<forall>a. map_of data' a =
                (if a - base \<in> set idx
                 then Some (hex_value (py_slice ((a - base) * 2) ((a - base) * 2 + 2) df))
                 else map_of (AList.update (base + i) ?v data) a)"
    and k: "is_dict (AList.update (base + i) ?v data) \<longrightarrow> is_dict data'"
    by blast
  have "\<forall>a. map_of data' a =
                (if a - base \<in> set (i # idx)
                 then Some (hex_value (py_slice ((a - base) * 2) ((a - base) * 2 + 2) df))
                 else map_of data a)"
  proof
    fix a
    show "map_of data' a =
                (if a - base \<in> set (i # idx)
                 then Some (hex_value (py_slice ((a - base) * 2) ((a - base) * 2 + 2) df))
                 else map_of data a)"
    proof (cases "a = base + i")
      case True
      have "map_of data' (base + i) =
              Some (hex_value (py_slice (i * 2) (i * 2 + 2) df))"
        using m [rule_format, of "base + i"] by (simp add: update_conv')
      then show ?thesis unfolding True by simp
    next
      case False
      then have "a - base \<noteq> i" by simp
      with m [rule_format, of a] False show ?thesis by (simp add: update_conv')
    qed
  qed
  moreover have "is_dict data \<longrightarrow> is_dict data'"
    using k by (simp add: is_dict_def distinct_update)
  ultimately show ?case using step d by simp
qed

lemma store_data_fails:
  "i \<in> set idx \<Longrightarrow> py_int16 (py_slice (i * 2) (i * 2 + 2) df) = None \<Longrightarrow>
   store_data df base idx data = Inl InvalidLiteral"
proof (induction idx arbitrary: data)
  case Nil
  then show ?case by simp
next
  case (Cons j idx)
  show ?case
  proof (cases "py_int16 (py_slice (j * 2) (j * 2 + 2) df)")
    case None
    then show ?thesis by simp
  next
    case (Some v)
    with Cons.prems have "i \<in> set idx" by auto
    from Cons.IH [OF this Cons.prems(2)] Some show ?thesis by simp
  qed
qed

lemma parse_line_header:
  assumes "strip raw = line" and "line \<noteq> []" and "hd line = CHR '':''"
    and "py_int16 (py_slice 1 3 line) = Some bc"
    and "py_int16 (py_slice 3 7 line) = Some off"
    and "py_int16 (py_slice 7 9 line) = Some rt"
  shows "parse_line raw (data, ext) =
           (if rt = 0x04 then
              if bc \<noteq> 2 then Inl InvalidExtLength
              else (case py_int16 (py_slice 9 (9 + bc * 2) line) of
                      None \<Rightarrow> Inl InvalidLiteral
                    | Some e \<Rightarrow> Inr (Continue, data, e))
            else if rt = 0x00 then
              (case store_data (py_slice 9 (9 + bc * 2) line) (push_bit 16 ext + off)
                      [0..bc - 1] data of
                 Inl e \<Rightarrow> Inl e
               | Inr data' \<Rightarrow> Inr (Continue, data', ext))
            else if rt = 0x01 then Inr (Break, data, ext)
            else Inr (Continue, data, ext))"
  unfolding parse_line_def Let_def prod.case assms(1)
  using assms(2-6) by simp

lemma parse_line_fields:
  assumes st: "strip raw = CHR '':'' # h @ sfx"
    and hex: "list_all is_hex h"
    and len: "length h = 8 + 2 * nat (hex_value (take 2 h))"
  shows "parse_line raw (data, ext) =
           (if hex_value (take 2 (drop 6 h)) = 0x04 then
              if hex_value (take 2 h) \<noteq> 2 then Inl InvalidExtLength
              else Inr (Continue, data, hex_value (drop 8 h))
            else if hex_value (take 2 (drop 6 h)) = 0x00 then
              (case store_data (drop 8 h) (push_bit 16 ext + hex_value (take 4 (drop 2 h)))
                      [0..hex_value (take 2 h) - 1] data of
                 Inl e \<Rightarrow> Inl e
               | Inr data' \<Rightarrow> Inr (Continue, data', ext))
            else if hex_value (take 2 (drop 6 h)) = 0x01 then Inr (Break, data, ext)
            else Inr (Continue, data, ext))"
proof -
  define line where "line = CHR '':'' # h @ sfx"
  define bc where "bc = hex_value (take 2 h)"
  define off where "off = hex_value (take 4 (drop 2 h))"
  define rt where "rt = hex_value (take 2 (drop 6 h))"
  define k where "k = nat (hex_value (take 2 h))"
  have lenk: "length h = 8 + 2 * k" unfolding k_def by (rule len)
  have l8: "8 \<le> length h" using lenk by linarith
  have bc0: "0 \<le> bc" unfolding bc_def by (rule hex_value_nonneg)
  have len': "length h = 8 + 2 * nat bc" unfolding bc_def by (rule len)
  have kbc: "nat bc = k" by (simp add: k_def bc_def)
  have d1: "drop 1 line = h @ sfx" "drop 3 line = drop 2 h @ sfx"
    "drop 7 line = drop 6 h @ sfx" "drop 9 line = drop 8 h @ sfx"
    using l8 by (simp_all add: line_def)
  have s1: "py_slice 1 3 line = take 2 h"
    unfolding py_slice_fields d1 using l8 by simp
  have s2: "py_slice 3 7 line = take 4 (drop 2 h)"
    unfolding py_slice_fields d1 using l8 by simp
  have s3: "py_slice 7 9 line = take 2 (drop 6 h)"
    unfolding py_slice_fields d1 using l8 by simp
  have s4: "py_slice 9 (9 + bc * 2) line = drop 8 h"
    unfolding py_slice_data_field [OF bc0] d1 kbc using lenk by simp
  have h1: "list_all is_hex (take 2 h)" "list_all is_hex (take 4 (drop 2 h))"
    "list_all is_hex (take 2 (drop 6 h))" "list_all is_hex (drop 8 h)"
    using list_all_take_drop [OF hex, of 2 0] list_all_take_drop [OF hex, of 4 2]
      list_all_take_drop [OF hex, of 2 6] list_all_take_drop [OF hex, of "length h" 8]
    by simp_all
  have n1: "take 2 h \<noteq> []" "take 4 (drop 2 h) \<noteq> []" "take 2 (drop 6 h) \<noteq> []"
    using l8 by auto
  have i1: "py_int16 (py_slice 1 3 line) = Some bc"
    unfolding s1 bc_def using n1(1) h1(1) by (rule py_int16_hex)
  have i2: "py_int16 (py_slice 3 7 line) = Some off"
    unfolding s2 off_def using n1(2) h1(2) by (rule py_int16_hex)
  have i3: "py_int16 (py_slice 7 9 line) = Some rt"
    unfolding s3 rt_def using n1(3) h1(3) by (rule py_int16_hex)
  have i4: "py_int16 (drop 8 h) = Some (hex_value (drop 8 h))" if "bc = 2"
  proof (rule py_int16_hex)
    from that kbc have "k = 2" by simp
    with lenk have "length h = 12" by simp
    then show "drop 8 h \<noteq> []" by auto
    show "list_all is_hex (drop 8 h)" by (rule h1(4))
  qed
  have line: "line \<noteq> []" "hd line = CHR '':''" by (simp_all add: line_def)
  have st': "strip raw = line" unfolding line_def by (rule st)
  note P = parse_line_header [OF st' line i1 i2 i3, of data ext, unfolded s4]
  have "parse_line raw (data, ext) =
          (if rt = 0x04 then
              if bc \<noteq> 2 then Inl InvalidExtLength
              else Inr (Continue, data, hex_value (drop 8 h))
            else if rt = 0x00 then
              (case store_data (drop 8 h) (push_bit 16 ext + off) [0..bc - 1] data of
                 Inl e \<Rightarrow> Inl e
               | Inr data' \<Rightarrow> Inr (Continue, data', ext))
            else if rt = 0x01 then Inr (Break, data, ext)
            else Inr (Continue, data, ext))"
  proof (cases "bc = 2")
    case True
    show ?thesis unfolding P using i4 [OF True] by simp
  next
    case False
    show ?thesis unfolding P using False by simp
  qed
  then show ?thesis unfolding bc_def off_def rt_def .
qed

lemma strip_valid_line:
  assumes "list_all is_space ws" and "list_all is_hex h" and "h \<noteq> []"
  shows "\<exists>s'. strip (ws @ CHR '':'' # h @ sfx) = CHR '':'' # h @ s'"
proof -
  have "is_hex (last h)" using assms(2,3) by (simp add: list_all_iff)
  then have "\<not> is_space (last (CHR '':'' # h))"
    using assms(3) by (simp add: is_hex_plain)
  moreover have "\<not> is_space (hd (CHR '':'' # h))" by (simp add: is_space_def)
  ultimately have "\<exists>s'. strip (ws @ (CHR '':'' # h) @ sfx) = (CHR '':'' # h) @ s'"
    using assms(1) by (intro strip_line) simp_all
  then show ?thesis by simp
qed

lemma parse_line_valid:
  assumes ws: "list_all is_space ws"
    and hex: "list_all is_hex h"
    and len: "length h = 8 + 2 * nat (hex_value (take 2 h))"
  shows "parse_line (ws @ CHR '':'' # h @ sfx) (data, ext) =
           (if hex_value (take 2 (drop 6 h)) = 0x04 then
              if hex_value (take 2 h) \<noteq> 2 then Inl InvalidExtLength
              else Inr (Continue, data, hex_value (drop 8 h))
            else if hex_value (take 2 (drop 6 h)) = 0x00 then
              (case store_data (drop 8 h) (push_bit 16 ext + hex_value (take 4 (drop 2 h)))
                      [0..hex_value (take 2 h) - 1] data of
                 Inl e \<Rightarrow> Inl e
               | Inr data' \<Rightarrow> Inr (Continue, data', ext))
            else if hex_value (take 2 (drop 6 h)) = 0x01 then Inr (Break, data, ext)
            else Inr (Continue, data, ext))"
proof -
  have "h \<noteq> []" using len by auto
  from strip_valid_line [OF ws hex this, of sfx]
  obtain s' where "strip (ws @ CHR '':'' # h @ sfx) = CHR '':'' # h @ s'" ..
  from this hex len show ?thesis by (rule parse_line_fields)
qed

lemma store_valid_data:
  assumes hex: "list_all is_hex h" and len: "length h = 8 + 2 * nat bc" and bc: "0 \<le> bc"
  shows "\<exists>data'. store_data (drop 8 h) base [0..bc - 1] data = Inr data'
          \<and> (\<forall>i. 0 \<le> i \<and> i < bc \<longrightarrow>
                map_of data' (base + i) = Some (hex_value (take 2 (drop (8 + 2 * nat i) h))))
          \<and> (\<forall>a. a < base \<or> base + bc \<le> a \<longrightarrow> map_of data' a = map_of data a)
          \<and> (is_dict data \<longrightarrow> is_dict data')"
proof -
  have dh: "list_all is_hex (drop 8 h)"
    using hex by (auto simp: list_all_iff dest: in_set_dropD)
  have dl: "int (length (drop 8 h)) = 2 * bc" using len bc by simp
  have idx: "\<forall>i \<in> set [0..bc - 1]. 0 \<le> i \<and> i * 2 + 2 \<le> int (length (drop 8 h))"
    unfolding dl by auto
  from store_data_hex [OF dh idx, of base data]
  obtain data' where d: "store_data (drop 8 h) base [0..bc - 1] data = Inr data'"
    and m: "\<forall>a. map_of data' a =
                (if a - base \<in> set [0..bc - 1]
                 then Some (hex_value (py_slice ((a - base) * 2) ((a - base) * 2 + 2) (drop 8 h)))
                 else map_of data a)"
    and k: "is_dict data \<longrightarrow> is_dict data'"
    by blast
  have "map_of data' (base + i) = Some (hex_value (take 2 (drop (8 + 2 * nat i) h)))"
    if "0 \<le> i \<and> i < bc" for i
  proof -
    from that have y: "(base + i) - base \<in> set [0..bc - 1]" by simp
    have "map_of data' (base + i) =
            (if (base + i) - base \<in> set [0..bc - 1]
             then Some (hex_value (py_slice (((base + i) - base) * 2)
                                     (((base + i) - base) * 2 + 2) (drop 8 h)))
             else map_of data (base + i))"
      by (rule m [rule_format])
    also have "\<dots> = Some (hex_value (py_slice (((base + i) - base) * 2)
                                     (((base + i) - base) * 2 + 2) (drop 8 h)))"
      using y by (rule if_P)
    also have "(base + i) - base = i" by simp
    finally have "map_of data' (base + i)
        = Some (hex_value (py_slice (i * 2) (i * 2 + 2) (drop 8 h)))" .
    moreover have "py_slice (i * 2) (i * 2 + 2) (drop 8 h) = take 2 (drop (2 * nat i) (drop 8 h))"
      using that by (intro py_slice_pair) simp
    moreover have "drop (2 * nat i) (drop 8 h) = drop (8 + 2 * nat i) h"
      by (simp add: add.commute)
    ultimately show ?thesis by simp
  qed
  moreover have "map_of data' a = map_of data a" if "a < base \<or> base + bc \<le> a" for a
  proof -
    from that have n: "a - base \<notin> set [0..bc - 1]" by auto
    have "map_of data' a =
            (if a - base \<in> set [0..bc - 1]
             then Some (hex_value (py_slice ((a - base) * 2) ((a - base) * 2 + 2) (drop 8 h)))
             else map_of data a)"
      by (rule m [rule_format])
    also have "\<dots> = map_of data a" using n by (rule if_not_P)
    finally show ?thesis .
  qed
  ultimately show ?thesis using d k by blast
qed

subsection \<open>Writing hexadecimal digits\<close>

lemma upper_digit:
  "is_upper_hex c \<Longrightarrow> \<exists>d. digit_value c = Some d \<and> 0 \<le> d \<and> d < 16 \<and> hex_digit d = c"
  by (auto simp: is_upper_hex_def digit_value_def hex_digit_def)

lemma is_upper_hex_is_hex: "is_upper_hex c \<Longrightarrow> is_hex c"
  using upper_digit [of c] by (auto simp: is_hex_def)

lemma list_all_upper_hex: "list_all is_upper_hex s \<Longrightarrow> list_all is_hex s"
  by (auto simp: list_all_iff is_upper_hex_is_hex)









subsection \<open>Decoding\<close>

lemma decode_header:
  assumes "py_int16 (py_slice 1 3 line) = Some bc"
    and "py_int16 (py_slice 3 7 line) = Some off"
    and "py_int16 (py_slice 7 9 line) = Some rt"
  shows "decode line =
           (if rt = 0x04 then
              if bc \<noteq> 2 then Inl InvalidExtLength
              else (case py_int16 (py_slice 9 (9 + bc * 2) line) of
                      None \<Rightarrow> Inl InvalidLiteral
                    | Some e \<Rightarrow>
                        Inr (Decoded (Record bc off rt [drop_bit 8 e AND 0xFF, e AND 0xFF])))
            else if rt = 0x00 then
              (case those (map (\<lambda>i. py_int16 (py_slice (i * 2) (i * 2 + 2)
                                          (py_slice 9 (9 + bc * 2) line)))
                             [0..bc - 1]) of
                 None \<Rightarrow> Inl InvalidLiteral
               | Some bytes \<Rightarrow> Inr (Decoded (Record bc off rt bytes)))
            else if rt = 0x01 then Inr EndOfFile
            else Inr Skipped)"
  unfolding decode_def assms option.case Let_def ..






subsection \<open>The codec and the source\<close>

text \<open>
  \<open>encode\<close> is what the source writes: each of its three kinds of output line is the
  encoding of a record.
\<close>

lemma data_record_encode:
  "data_record md (c, n) = encode (Record n (c AND 0xFFFF) 0x00 (chunk_bytes md c n))"
  by (simp add: data_record_fields encode_def)

lemma gen_ext_record_encode:
  "gen_ext_record s = encode (Record 2 0 0x04 [drop_bit 8 s AND 0xFF, s AND 0xFF])"
  by (simp add: gen_ext_record_fields encode_def)

lemma eof_record_encode: "'':00000001FF'' = encode (Record 0 0 0x01 [])"
  using eof_record by (simp add: encode_def)

text \<open>
  \<open>decode\<close> is what the source reads: \<open>parse_line\<close> raises exactly the error that
  decoding raises; on a Data record it stores the data bytes of the decoded record, in
  order; on an ExtendedLinearAddress record it sets the extended address to the number
  whose high and low byte are the record's data; it leaves the loop where decoding
  finds the EndOfFile record and goes on unchanged where decoding skips the line.
\<close>

lemma store_data_those:
  "store_data df base idx data =
     (case those (map (\<lambda>i. py_int16 (py_slice (i * 2) (i * 2 + 2) df)) idx) of
        None \<Rightarrow> Inl InvalidLiteral
      | Some bytes \<Rightarrow> Inr (fold (\<lambda>(i, b). AList.update (base + i) b) (zip idx bytes) data))"
proof (induction idx arbitrary: data)
  case Nil
  show ?case by simp
next
  case (Cons i idx)
  show ?case
  proof (cases "py_int16 (py_slice (i * 2) (i * 2 + 2) df)")
    case None
    then show ?thesis by simp
  next
    case (Some b)
    then show ?thesis
      by (simp add: Cons.IH split: option.splits)
  qed
qed

lemma parse_line_decode:
  assumes "strip raw = line" and "line \<noteq> []" and "hd line = CHR '':''"
  shows "parse_line raw (data, ext) =
           (case decode line of
              Inl e \<Rightarrow> Inl e
            | Inr Skipped \<Rightarrow> Inr (Continue, data, ext)
            | Inr EndOfFile \<Rightarrow> Inr (Break, data, ext)
            | Inr (Decoded r) \<Rightarrow>
                if rec_type r = 0x00 then
                  Inr (Continue,
                       fold (\<lambda>(i, b). AList.update (push_bit 16 ext + rec_offset r + i) b)
                         (zip [0..rec_count r - 1] (rec_data r)) data,
                       ext)
                else
                  (case py_int16 (py_slice 9 (9 + rec_count r * 2) line) of
                     None \<Rightarrow> Inl InvalidLiteral
                   | Some e \<Rightarrow> Inr (Continue, data, e)))"
proof (cases "py_int16 (py_slice 1 3 line)")
  case None
  with assms show ?thesis
    by (simp add: parse_line_def decode_def)
next
  case bc: (Some bc)
  show ?thesis
  proof (cases "py_int16 (py_slice 3 7 line)")
    case None
    with assms bc show ?thesis
      by (simp add: parse_line_def decode_def)
  next
    case off: (Some off)
    show ?thesis
    proof (cases "py_int16 (py_slice 7 9 line)")
      case None
      with assms bc off show ?thesis
        by (simp add: parse_line_def decode_def)
    next
      case rt: (Some rt)
      note P = parse_line_header [OF assms bc off rt, of data ext]
      note D = decode_header [OF bc off rt]
      show ?thesis
        unfolding P D store_data_those
        by (simp split: option.splits)
    qed
  qed
qed

lemma decoded_ext_record:
  assumes "decode line = Inr (Decoded r)" and "rec_type r \<noteq> 0x00"
  shows "rec_type r = 0x04 \<and> rec_count r = 2
         \<and> (\<exists>e. py_int16 (py_slice 9 (9 + rec_count r * 2) line) = Some e
                \<and> rec_data r = [drop_bit 8 e AND 0xFF, e AND 0xFF])"
proof (cases "py_int16 (py_slice 1 3 line)")
  case None
  with assms show ?thesis by (simp add: decode_def)
next
  case bc: (Some bc)
  show ?thesis
  proof (cases "py_int16 (py_slice 3 7 line)")
    case None
    with assms bc show ?thesis by (simp add: decode_def)
  next
    case off: (Some off)
    show ?thesis
    proof (cases "py_int16 (py_slice 7 9 line)")
      case None
      with assms bc off show ?thesis by (simp add: decode_def)
    next
      case rt: (Some rt)
      from assms show ?thesis
        unfolding decode_header [OF bc off rt]
        by (auto split: if_splits option.splits)
    qed
  qed
qed

section \<open>The claims\<close>

text \<open>
  Claim C1. Merging is a left fold with last-writer-wins per address: the merged image
  maps every address to the value of the latest image of the sequence that contains it,
  and an address that no image contains is absent from it. Consequently
  \<open>merge [A, B]\<close> and \<open>merge [B, A]\<close> can differ only at an address that both
  \<open>A\<close> and \<open>B\<close> contain, and at such an address each has the value of its later
  argument.
\<close>

theorem merge_last_writer_wins:
  assumes "\<forall>img \<in> set images. is_dict img" and "is_dict A" and "is_dict B"
  shows "merge images = foldl dict_update [] images
    \<and> (\<forall>i < length images.
          a \<in> set (keys (images ! i))
          \<and> (\<forall>j. i < j \<and> j < length images \<longrightarrow> a \<notin> set (keys (images ! j)))
          \<longrightarrow> map_of (merge images) a = map_of (images ! i) a)
    \<and> ((\<forall>i < length images. a \<notin> set (keys (images ! i))) \<longrightarrow> map_of (merge images) a = None)
    \<and> (map_of (merge [A, B]) a \<noteq> map_of (merge [B, A]) a
          \<longrightarrow> a \<in> set (keys A) \<and> a \<in> set (keys B))
    \<and> (a \<in> set (keys A) \<and> a \<in> set (keys B)
          \<longrightarrow> map_of (merge [A, B]) a = map_of B a \<and> map_of (merge [B, A]) a = map_of A a)"
proof (intro conjI allI impI)
  show "merge images = foldl dict_update [] images"
    by (simp add: merge_def)
next
  fix i
  assume i: "i < length images"
    and h: "a \<in> set (keys (images ! i))
            \<and> (\<forall>j. i < j \<and> j < length images \<longrightarrow> a \<notin> set (keys (images ! j)))"
  then have "latest images a = map_of (images ! i) a"
    by (intro latest_index) (auto simp: keys_map_of)
  then show "map_of (merge images) a = map_of (images ! i) a"
    by (simp add: merge_latest [OF assms(1)])
next
  assume none: "\<forall>i < length images. a \<notin> set (keys (images ! i))"
  have "\<forall>img \<in> set images. map_of img a = None"
  proof
    fix img assume "img \<in> set images"
    then obtain i where "i < length images" "images ! i = img"
      by (auto simp: in_set_conv_nth)
    with none have "a \<notin> set (keys img)" by auto
    then show "map_of img a = None" by (simp add: keys_map_of)
  qed
  then show "map_of (merge images) a = None"
    by (simp add: merge_latest [OF assms(1)] latest_None)
next
  assume "map_of (merge [A, B]) a \<noteq> map_of (merge [B, A]) a"
  then have *: "(map_of A ++ map_of B) a \<noteq> (map_of B ++ map_of A) a"
    by (simp add: merge_pair assms)
  from * show "a \<in> set (keys A)"
    by (auto simp: keys_map_of map_add_def split: option.splits)
  from * show "a \<in> set (keys B)"
    by (auto simp: keys_map_of map_add_def split: option.splits)
next
  assume h: "a \<in> set (keys A) \<and> a \<in> set (keys B)"
  then show "map_of (merge [A, B]) a = map_of B a"
    by (auto simp: merge_pair assms keys_map_of map_add_def split: option.splits)
  from h show "map_of (merge [B, A]) a = map_of A a"
    by (auto simp: merge_pair assms keys_map_of map_add_def split: option.splits)
qed

theorem merge_last_writer_wins_witness:
  "is_dict [(0, 0x10), (5, 0x20)] \<and> is_dict [(5, 0xFF)]
   \<and> (5::int) \<in> set (keys [(0, 0x10), (5, 0x20)]) \<and> (5::int) \<in> set (keys [(5, 0xFF)])
   \<and> map_of (merge [[(0, 0x10), (5, 0x20)], [(5, 0xFF)]]) 5 = Some 0xFF
   \<and> map_of (merge [[(5, 0xFF)], [(0, 0x10), (5, 0x20)]]) 5 = Some 0x20"
proof -
  have h1: "\<forall>img \<in> set [[(0, 0x10), (5, 0x20)], [(5, 0xFF :: int)]]. is_dict img"
    by (simp add: is_dict_def)
  have h2: "is_dict [(0, 0x10), (5, 0x20)]" and h3: "is_dict [(5, 0xFF)]"
    by (simp_all add: is_dict_def)
  have k: "(5::int) \<in> set (keys [(0, 0x10), (5, 0x20)]) \<and> (5::int) \<in> set (keys [(5, 0xFF)])"
    by (simp add: keys_def)
  note T = merge_last_writer_wins [OF h1 h2 h3, of 5]
  note T5 = T [THEN conjunct2, THEN conjunct2, THEN conjunct2, THEN conjunct2]
  from T5 k
  have "map_of (merge [[(0, 0x10), (5, 0x20)], [(5, 0xFF)]]) 5 = map_of [(5, 0xFF :: int)] (5 :: int)
      \<and> map_of (merge [[(5, 0xFF)], [(0, 0x10), (5, 0x20)]]) 5
          = map_of [(0, 0x10 :: int), (5, 0x20)] (5 :: int)"
    by (rule mp)
  then have "map_of (merge [[(0, 0x10), (5, 0x20)], [(5, 0xFF)]]) 5 = Some 0xFF
      \<and> map_of (merge [[(5, 0xFF)], [(0, 0x10), (5, 0x20)]]) 5 = Some 0x20"
    by simp
  with h2 h3 k show ?thesis by (intro conjI) (elim conjE, assumption)+
qed

text \<open>
  Claim C2. Every record that emission produces, Data, ExtendedLinearAddress and
  EndOfFile alike, is the format string applied to fields \<open>byte_count\<close>, \<open>offset\<close>,
  \<open>record_type\<close>, \<open>data\<close> and a checksum that is the two's complement, truncated to
  8 bits, of \<open>byte_count\<close> + high byte of \<open>offset\<close> + low byte of \<open>offset\<close> +
  \<open>record_type\<close> + the sum of \<open>data\<close>; so the sum of those fields and the checksum
  is 0 modulo 256, and the checksum is a byte.
\<close>

theorem emitted_checksums:
  "\<forall>r \<in> set (hex_records md).
     \<exists>bc off rt data.
       r = format_record bc off rt (join_bytes data) (compute_checksum bc off rt data)
       \<and> (rt = 0x00 \<or> rt = 0x04 \<or> rt = 0x01)
       \<and> compute_checksum bc off rt data
           = (- (bc + (drop_bit 8 off AND 0xFF) + (off AND 0xFF) + rt + sum_list data)) mod 256
       \<and> (bc + (drop_bit 8 off AND 0xFF) + (off AND 0xFF) + rt + sum_list data
            + compute_checksum bc off rt data) mod 256 = 0
       \<and> 0 \<le> compute_checksum bc off rt data \<and> compute_checksum bc off rt data < 256"
proof (rule ballI)
  fix r
  assume "r \<in> set (hex_records md)"
  then have "r \<in> set (render md None (passes md)) \<or> r = '':00000001FF''"
    by (auto simp: hex_records_render)
  then show "\<exists>bc off rt data.
       r = format_record bc off rt (join_bytes data) (compute_checksum bc off rt data)
       \<and> (rt = 0x00 \<or> rt = 0x04 \<or> rt = 0x01)
       \<and> compute_checksum bc off rt data
           = (- (bc + (drop_bit 8 off AND 0xFF) + (off AND 0xFF) + rt + sum_list data)) mod 256
       \<and> (bc + (drop_bit 8 off AND 0xFF) + (off AND 0xFF) + rt + sum_list data
            + compute_checksum bc off rt data) mod 256 = 0
       \<and> 0 \<le> compute_checksum bc off rt data \<and> compute_checksum bc off rt data < 256"
  proof
    assume "r \<in> set (render md None (passes md))"
    then have "(\<exists>s. r = gen_ext_record s) \<or> (\<exists>ch \<in> set (passes md). r = data_record md ch)"
      by (rule render_cases)
    then show ?thesis
    proof
      assume "\<exists>s. r = gen_ext_record s"
      then obtain s where "r = gen_ext_record s" ..
      then have "r = format_record 2 0 4 (join_bytes [drop_bit 8 s AND 0xFF, s AND 0xFF])
                   (compute_checksum 2 0 4 [drop_bit 8 s AND 0xFF, s AND 0xFF])"
        by (simp only: gen_ext_record_fields)
      then show ?thesis by (rule record_checksum_ok) simp
    next
      assume "\<exists>ch \<in> set (passes md). r = data_record md ch"
      then obtain c n where "r = data_record md (c, n)" by auto
      then have "r = format_record n (c AND 0xFFFF) 0 (join_bytes (chunk_bytes md c n))
                   (compute_checksum n (c AND 0xFFFF) 0 (chunk_bytes md c n))"
        by (simp only: data_record_fields)
      then show ?thesis by (rule record_checksum_ok) simp
    qed
  next
    assume "r = '':00000001FF''"
    then have "r = format_record 0 0 1 (join_bytes []) (compute_checksum 0 0 1 [])"
      by (simp only: eof_record)
    then show ?thesis by (rule record_checksum_ok) simp
  qed
qed

theorem emitted_checksums_witness:
  "'':020000040001F9'' \<in> set (hex_records [(0xFFFE, 1), (0x10001, 2)])
   \<and> (\<exists>bc off rt data.
       '':020000040001F9''
         = format_record bc off rt (join_bytes data) (compute_checksum bc off rt data)
       \<and> (rt = 0x00 \<or> rt = 0x04 \<or> rt = 0x01)
       \<and> compute_checksum bc off rt data
           = (- (bc + (drop_bit 8 off AND 0xFF) + (off AND 0xFF) + rt + sum_list data)) mod 256
       \<and> (bc + (drop_bit 8 off AND 0xFF) + (off AND 0xFF) + rt + sum_list data
            + compute_checksum bc off rt data) mod 256 = 0
       \<and> 0 \<le> compute_checksum bc off rt data \<and> compute_checksum bc off rt data < 256)"
proof -
  have "hex_records [(0xFFFE, 1), (0x10001, 2)]
          = ['':020000040000FA'', '':02FFFE00010000'', '':020000040001F9'',
             '':020000000002FC'', '':00000001FF'']"
    by code_simp
  then have m: "'':020000040001F9'' \<in> set (hex_records [(0xFFFE, 1), (0x10001, 2)])"
    by simp
  from m emitted_checksums [of "[(0xFFFE, 1), (0x10001, 2)]", THEN bspec, OF m]
  show ?thesis by (rule conjI)
qed

text \<open>
  Claim C3, as amended. File A defines 0x0000 = 0x10 and 0x0005 = 0x20, file B (merged
  after A) defines 0x0005 = 0xFF. The merge yields 0x0000 \<rightarrow> 0x10 and 0x0005 \<rightarrow> 0xFF, and
  emission produces exactly three records: one ExtendedLinearAddress record for segment
  0, one Data record of length 6 at offset 0 with the bytes 10 00 00 00 00 FF, and one
  EndOfFile record; they are written to the output file, one per line, when the file
  can be opened for writing.
\<close>

theorem scenario_records:
  "merge [[(0x0000, 0x10), (0x0005, 0x20)], [(0x0005, 0xFF)]] = [(0x0000, 0x10), (0x0005, 0xFF)]
   \<and> hex_records (merge [[(0x0000, 0x10), (0x0005, 0x20)], [(0x0005, 0xFF)]])
       = ['':020000040000FA'', '':060000001000000000FFEB'', '':00000001FF'']
   \<and> '':060000001000000000FFEB''
       = format_record 6 0 0 (join_bytes [0x10, 0x00, 0x00, 0x00, 0x00, 0xFF])
           (compute_checksum 6 0 0 [0x10, 0x00, 0x00, 0x00, 0x00, 0xFF])
   \<and> '':020000040000FA'' = gen_ext_record 0
   \<and> write_data_as_hex (merge [[(0x0000, 0x10), (0x0005, 0x20)], [(0x0005, 0xFF)]]) out fs
       = (if can_open fs out
          then (None, fs\<lparr>contents := (contents fs)(out \<mapsto>
                  '':020000040000FA'' @ [CHR 0x0A] @ '':060000001000000000FFEB''
                   @ [CHR 0x0A] @ '':00000001FF'' @ [CHR 0x0A])\<rparr>)
          else (Some OSError, fs))"
proof (intro conjI)
  show m: "merge [[(0x0000, 0x10), (0x0005, 0x20)], [(0x0005, 0xFF)]]
             = [(0x0000, 0x10), (0x0005, 0xFF)]"
    by code_simp
  show r: "hex_records (merge [[(0x0000, 0x10), (0x0005, 0x20)], [(0x0005, 0xFF)]])
       = ['':020000040000FA'', '':060000001000000000FFEB'', '':00000001FF'']"
    by code_simp
  show "'':060000001000000000FFEB''
       = format_record 6 0 0 (join_bytes [0x10, 0x00, 0x00, 0x00, 0x00, 0xFF])
           (compute_checksum 6 0 0 [0x10, 0x00, 0x00, 0x00, 0x00, 0xFF])"
    by code_simp
  show "'':020000040000FA'' = gen_ext_record 0"
    by code_simp
  show "write_data_as_hex (merge [[(0x0000, 0x10), (0x0005, 0x20)], [(0x0005, 0xFF)]]) out fs
       = (if can_open fs out
          then (None, fs\<lparr>contents := (contents fs)(out \<mapsto>
                  '':020000040000FA'' @ [CHR 0x0A] @ '':060000001000000000FFEB''
                   @ [CHR 0x0A] @ '':00000001FF'' @ [CHR 0x0A])\<rparr>)
          else (Some OSError, fs))"
    unfolding write_data_as_hex_def Let_def r unfolding m by simp
qed

text \<open>
  The claim as the specification states it, one Data record followed by one EndOfFile
  record and nothing else, fails: the output has three records, and its first one is
  the ExtendedLinearAddress record.
\<close>

theorem scenario_counterexample:
  "hex_records (merge [[(0x0000, 0x10), (0x0005, 0x20)], [(0x0005, 0xFF)]])
     \<noteq> ['':060000001000000000FFEB'', '':00000001FF'']
   \<and> length (hex_records (merge [[(0x0000, 0x10), (0x0005, 0x20)], [(0x0005, 0xFF)]])) = 3
   \<and> hd (hex_records (merge [[(0x0000, 0x10), (0x0005, 0x20)], [(0x0005, 0xFF)]]))
       = gen_ext_record 0"
  by code_simp

text \<open>
  Claim C4. Every address from \<open>min_addr\<close> to \<open>max_addr\<close> lies in a pass of the
  loop, and the byte for it in the Data record of that pass is the value stored
  in the image when the address is present, and the fill byte 0x00 when it is absent.
  The data bytes of all Data records, in order, are the image read from \<open>min_addr\<close> to
  \<open>max_addr\<close> with 0x00 in the gaps.
\<close>

theorem gap_fill:
  assumes "md \<noteq> []"
  shows "hex_records md = render md None (passes md) @ ['':00000001FF'']
    \<and> concat (map (\<lambda>(c, n). chunk_bytes md c n) (passes md))
        = map (\<lambda>a. case map_of md a of None \<Rightarrow> 0x00 | Some v \<Rightarrow> v) [min_key md..max_key md]
    \<and> (\<forall>a. min_key md \<le> a \<and> a \<le> max_key md \<longrightarrow>
          (\<exists>(c, n) \<in> set (passes md).
             c \<le> a \<and> a < c + n
             \<and> data_record md (c, n) \<in> set (hex_records md)
             \<and> data_record md (c, n)
                 = format_record n (c AND 0xFFFF) 0 (join_bytes (chunk_bytes md c n))
                     (compute_checksum n (c AND 0xFFFF) 0 (chunk_bytes md c n))
             \<and> chunk_bytes md c n ! nat (a - c)
                 = (case map_of md a of None \<Rightarrow> 0x00 | Some v \<Rightarrow> v)))"
proof (intro conjI allI impI)
  show "hex_records md = render md None (passes md) @ ['':00000001FF'']"
    by (rule hex_records_render)
  have "concat (map (\<lambda>(c, n). chunk_bytes md c n) (passes md))
        = map (\<lambda>a. dict_get md a 0) [min_key md..max_key md]"
    unfolding passes_def by (rule chunks_bytes)
  then show "concat (map (\<lambda>(c, n). chunk_bytes md c n) (passes md))
        = map (\<lambda>a. case map_of md a of None \<Rightarrow> 0x00 | Some v \<Rightarrow> v) [min_key md..max_key md]"
    by (simp add: dict_get_fill)
next
  fix a
  assume a: "min_key md \<le> a \<and> a \<le> max_key md"
  then have "\<exists>(c, n) \<in> set (chunks (max_key md) (min_key md)). c \<le> a \<and> a < c + n"
    by (intro chunks_cover) simp_all
  then obtain c n where mem: "(c, n) \<in> set (passes md)" and ca: "c \<le> a" "a < c + n"
    by (auto simp: passes_def)
  have d: "data_record md (c, n) \<in> set (hex_records md)"
    using mem by (simp add: hex_records_render render_data)
  have "chunk_bytes md c n ! nat (a - c) = dict_get md (c + (a - c)) 0"
    using ca by (intro chunk_bytes_nth) simp_all
  then have v: "chunk_bytes md c n ! nat (a - c)
                 = (case map_of md a of None \<Rightarrow> 0x00 | Some v \<Rightarrow> v)"
    by (simp add: dict_get_fill)
  have "c \<le> a \<and> a < c + n
             \<and> data_record md (c, n) \<in> set (hex_records md)
             \<and> data_record md (c, n)
                 = format_record n (c AND 0xFFFF) 0 (join_bytes (chunk_bytes md c n))
                     (compute_checksum n (c AND 0xFFFF) 0 (chunk_bytes md c n))
             \<and> chunk_bytes md c n ! nat (a - c)
                 = (case map_of md a of None \<Rightarrow> 0x00 | Some v \<Rightarrow> v)"
    using ca d data_record_fields [of md c n] v by (intro conjI)
  then show "\<exists>(c, n) \<in> set (passes md).
             c \<le> a \<and> a < c + n
             \<and> data_record md (c, n) \<in> set (hex_records md)
             \<and> data_record md (c, n)
                 = format_record n (c AND 0xFFFF) 0 (join_bytes (chunk_bytes md c n))
                     (compute_checksum n (c AND 0xFFFF) 0 (chunk_bytes md c n))
             \<and> chunk_bytes md c n ! nat (a - c)
                 = (case map_of md a of None \<Rightarrow> 0x00 | Some v \<Rightarrow> v)"
    by (intro bexI [OF _ mem]) (unfold prod.case)
qed

theorem gap_fill_witness:
  "[(0x1E, 0xAA), (0x21, 0xBB)] \<noteq> ([] :: image)
   \<and> min_key [(0x1E, 0xAA), (0x21, 0xBB)] \<le> 0x20 \<and> 0x20 \<le> max_key [(0x1E, 0xAA), (0x21, 0xBB)]
   \<and> map_of [(0x1E, 0xAA), (0x21, 0xBB)] (0x20 :: int) = (None :: int option)
   \<and> passes [(0x1E, 0xAA), (0x21, 0xBB)] = [(0x1E, 2), (0x20, 2)]
   \<and> concat (map (\<lambda>(c, n). chunk_bytes [(0x1E, 0xAA), (0x21, 0xBB)] c n)
         (passes [(0x1E, 0xAA), (0x21, 0xBB)])) = [0xAA, 0x00, 0x00, 0xBB]
   \<and> hex_records [(0x1E, 0xAA), (0x21, 0xBB)]
       = ['':020000040000FA'', '':02001E00AA0036'', '':0200200000BB23'', '':00000001FF'']"
proof -
  have h: "[(0x1E, 0xAA), (0x21, 0xBB)] \<noteq> ([] :: image)" by simp
  have k: "min_key [(0x1E, 0xAA), (0x21, 0xBB)] = 0x1E" "max_key [(0x1E, 0xAA), (0x21, 0xBB)] = 0x21"
    by (simp_all add: min_key_def max_key_def keys_def)
  have p: "passes [(0x1E, 0xAA), (0x21, 0xBB)] = [(0x1E, 2), (0x20, 2)]"
    by code_simp
  have r: "hex_records [(0x1E, 0xAA), (0x21, 0xBB)]
       = ['':020000040000FA'', '':02001E00AA0036'', '':0200200000BB23'', '':00000001FF'']"
    by code_simp
  have u: "[0x1E..0x21::int] = [0x1E, 0x1F, 0x20, 0x21]"
    by code_simp
  note T = gap_fill [OF h]
  have "concat (map (\<lambda>(c, n). chunk_bytes [(0x1E, 0xAA), (0x21, 0xBB)] c n)
         (passes [(0x1E, 0xAA), (0x21, 0xBB)])) = [0xAA, 0x00, 0x00, 0xBB]"
    unfolding T [THEN conjunct2, THEN conjunct1] k u by simp
  with h k p r show ?thesis by simp
qed

text \<open>
  Claim C5. Every pass of the loop from \<open>min_addr\<close> to \<open>max_addr\<close> emits one Data
  record, whose length is min(16 - (offset mod 16), max_addr - current + 1) with
  \<open>offset\<close> the low 16 bits of \<open>current\<close>: between 1 and 16 bytes, all in one
  16-byte block and none above \<open>max_addr\<close>. The passes are consecutive and cover
  the range from \<open>min_addr\<close> to \<open>max_addr\<close> exactly.
\<close>

theorem chunk_lengths:
  assumes "md \<noteq> []"
  shows "hex_records md = render md None (passes md) @ ['':00000001FF'']
    \<and> concat (map (\<lambda>(c, n). [c..c + n - 1]) (passes md)) = [min_key md..max_key md]
    \<and> (\<forall>(c, n) \<in> set (passes md).
          n = min (16 - (c AND 0xFFFF) mod 16) (max_key md - c + 1)
          \<and> 1 \<le> n \<and> n \<le> 16
          \<and> min_key md \<le> c \<and> c + n - 1 \<le> max_key md
          \<and> (c + n - 1) div 16 = c div 16
          \<and> data_record md (c, n) \<in> set (hex_records md)
          \<and> data_record md (c, n)
              = format_record n (c AND 0xFFFF) 0 (join_bytes (chunk_bytes md c n))
                  (compute_checksum n (c AND 0xFFFF) 0 (chunk_bytes md c n))
          \<and> length (chunk_bytes md c n) = nat n)"
proof (intro conjI ballI)
  show "hex_records md = render md None (passes md) @ ['':00000001FF'']"
    by (rule hex_records_render)
  show "concat (map (\<lambda>(c, n). [c..c + n - 1]) (passes md)) = [min_key md..max_key md]"
    unfolding passes_def by (rule chunks_partition)
next
  fix ch
  assume mem: "ch \<in> set (passes md)"
  obtain c n where ch: "ch = (c, n)" by (cases ch)
  from mem ch have "(c, n) \<in> set (chunks (max_key md) (min_key md))"
    by (simp add: passes_def)
  from chunks_props [OF this]
  have p: "min_key md \<le> c" "c \<le> max_key md"
    "n = min (16 - (c AND 0xFFFF) mod 16) (max_key md - c + 1)"
    by simp_all
  note b = chunk_len_bounds [OF p(2) p(3)]
  have d: "data_record md (c, n) \<in> set (hex_records md)"
    using mem ch by (simp add: hex_records_render render_data)
  have "n = min (16 - (c AND 0xFFFF) mod 16) (max_key md - c + 1)
          \<and> 1 \<le> n \<and> n \<le> 16
          \<and> min_key md \<le> c \<and> c + n - 1 \<le> max_key md
          \<and> (c + n - 1) div 16 = c div 16
          \<and> data_record md (c, n) \<in> set (hex_records md)
          \<and> data_record md (c, n)
              = format_record n (c AND 0xFFFF) 0 (join_bytes (chunk_bytes md c n))
                  (compute_checksum n (c AND 0xFFFF) 0 (chunk_bytes md c n))
          \<and> length (chunk_bytes md c n) = nat n"
    using p(3) b(1) b(2) p(1) b(3) b(4) d data_record_fields [of md c n]
      length_chunk_bytes [of md c n]
    by (intro conjI)
  then show "case ch of (c, n) \<Rightarrow>
          n = min (16 - (c AND 0xFFFF) mod 16) (max_key md - c + 1)
          \<and> 1 \<le> n \<and> n \<le> 16
          \<and> min_key md \<le> c \<and> c + n - 1 \<le> max_key md
          \<and> (c + n - 1) div 16 = c div 16
          \<and> data_record md (c, n) \<in> set (hex_records md)
          \<and> data_record md (c, n)
              = format_record n (c AND 0xFFFF) 0 (join_bytes (chunk_bytes md c n))
                  (compute_checksum n (c AND 0xFFFF) 0 (chunk_bytes md c n))
          \<and> length (chunk_bytes md c n) = nat n"
    unfolding ch prod.case .
qed

theorem chunk_lengths_witness:
  "[(0x0E, 1), (0x21, 2)] \<noteq> ([] :: image)
   \<and> passes [(0x0E, 1), (0x21, 2)] = [(0x0E, 2), (0x10, 16), (0x20, 2)]
   \<and> hex_records [(0x0E, 1), (0x21, 2)]
       = ['':020000040000FA'', '':02000E000100EF'',
          '':1000100000000000000000000000000000000000E0'', '':020020000002DC'',
          '':00000001FF'']
   \<and> (2::int) = min (16 - (0x0E AND 0xFFFF) mod 16) (max_key [(0x0E, 1), (0x21, 2)] - 0x0E + 1)
   \<and> data_record [(0x0E, 1), (0x21, 2)] (0x0E, 2) \<in> set (hex_records [(0x0E, 1), (0x21, 2)])"
proof -
  have h: "[(0x0E, 1), (0x21, 2)] \<noteq> ([] :: image)" by simp
  have p: "passes [(0x0E, 1), (0x21, 2)] = [(0x0E, 2), (0x10, 16), (0x20, 2)]"
    by code_simp
  have r: "hex_records [(0x0E, 1), (0x21, 2)]
       = ['':020000040000FA'', '':02000E000100EF'',
          '':1000100000000000000000000000000000000000E0'', '':020020000002DC'',
          '':00000001FF'']"
    by code_simp
  have m: "(0x0E, 2) \<in> set (passes [(0x0E, 1), (0x21, 2)])"
    unfolding p by simp
  note T = chunk_lengths [OF h]
  note F = T [THEN conjunct2, THEN conjunct2, THEN bspec, OF m, unfolded prod.case]
  note F1 = F [THEN conjunct1]
  note F7 = F [THEN conjunct2, THEN conjunct2, THEN conjunct2, THEN conjunct2,
               THEN conjunct2, THEN conjunct2, THEN conjunct1]
  from F1 F7
  have "(2::int) = min (16 - (0x0E AND 0xFFFF) mod 16) (max_key [(0x0E, 1), (0x21, 2)] - 0x0E + 1)
    \<and> data_record [(0x0E, 1), (0x21, 2)] (0x0E, 2) \<in> set (hex_records [(0x0E, 1), (0x21, 2)])"
    by (rule conjI)
  with h p r show ?thesis by (intro conjI) (elim conjE, assumption)+
qed

text \<open>
  Claim C6. The emitted sequence is, for each value of address >> 16 between that of
  \<open>min_addr\<close> and that of \<open>max_addr\<close> in increasing order, one
  ExtendedLinearAddress record for that segment followed by the Data records of the
  passes in that segment, of which there is at least one; then the EndOfFile record.
  So the ExtendedLinearAddress records of the output are exactly one per segment, in
  increasing order, each before the first Data record of its segment. These segments
  are exactly the values of address >> 16 on the range, and all addresses of one Data
  record lie in one segment.
\<close>

theorem extended_address_records:
  assumes "md \<noteq> []"
  shows "hex_records md =
           concat (map (\<lambda>s. gen_ext_record s
                           # map (data_record md)
                               (filter (\<lambda>ch. drop_bit 16 (fst ch) = s) (passes md)))
                    [drop_bit 16 (min_key md)..drop_bit 16 (max_key md)])
           @ ['':00000001FF'']
    \<and> filter is_ext_record (hex_records md)
        = map gen_ext_record [drop_bit 16 (min_key md)..drop_bit 16 (max_key md)]
    \<and> sorted_wrt (<) [drop_bit 16 (min_key md)..drop_bit 16 (max_key md)]
    \<and> (\<forall>s \<in> set [drop_bit 16 (min_key md)..drop_bit 16 (max_key md)].
          filter (\<lambda>ch. drop_bit 16 (fst ch) = s) (passes md) \<noteq> []
          \<and> (\<exists>a. min_key md \<le> a \<and> a \<le> max_key md \<and> drop_bit 16 a = s))
    \<and> (\<forall>a. min_key md \<le> a \<and> a \<le> max_key md \<longrightarrow>
          drop_bit 16 a \<in> set [drop_bit 16 (min_key md)..drop_bit 16 (max_key md)])
    \<and> (\<forall>(c, n) \<in> set (passes md). \<forall>a. c \<le> a \<and> a < c + n \<longrightarrow> drop_bit 16 a = drop_bit 16 c)"
proof (intro conjI ballI allI impI)
  have "segment_records md (passes md) =
          (\<lambda>s. gen_ext_record s
                # map (data_record md) (filter (\<lambda>ch. drop_bit 16 (fst ch) = s) (passes md)))"
    by (rule ext) (simp add: segment_records_def)
  with hex_records_segments [OF assms]
  show "hex_records md =
           concat (map (\<lambda>s. gen_ext_record s
                           # map (data_record md)
                               (filter (\<lambda>ch. drop_bit 16 (fst ch) = s) (passes md)))
                    [drop_bit 16 (min_key md)..drop_bit 16 (max_key md)])
           @ ['':00000001FF'']"
    by simp
  show "filter is_ext_record (hex_records md)
        = map gen_ext_record [drop_bit 16 (min_key md)..drop_bit 16 (max_key md)]"
    by (rule filter_ext_hex_records [OF assms])
  show "sorted_wrt (<) [drop_bit 16 (min_key md)..drop_bit 16 (max_key md)]"
    by simp
next
  fix s
  assume "s \<in> set [drop_bit 16 (min_key md)..drop_bit 16 (max_key md)]"
  then have s: "drop_bit 16 (min_key md) \<le> s" "s \<le> drop_bit 16 (max_key md)"
    by simp_all
  from segment_has_pass [OF assms s]
  show "filter (\<lambda>ch. drop_bit 16 (fst ch) = s) (passes md) \<noteq> []"
    by (simp add: filter_empty_conv)
  from segment_has_address [OF min_key_le_max_key [OF assms] s]
  show "\<exists>a. min_key md \<le> a \<and> a \<le> max_key md \<and> drop_bit 16 a = s" .
next
  fix a
  assume "min_key md \<le> a \<and> a \<le> max_key md"
  then have "drop_bit 16 (min_key md) \<le> drop_bit 16 a" "drop_bit 16 a \<le> drop_bit 16 (max_key md)"
    by (simp_all add: seg_mono)
  then show "drop_bit 16 a \<in> set [drop_bit 16 (min_key md)..drop_bit 16 (max_key md)]"
    by simp
next
  fix ch
  assume mem: "ch \<in> set (passes md)"
  obtain c n where ch: "ch = (c, n)" by (cases ch)
  have "\<forall>a. c \<le> a \<and> a < c + n \<longrightarrow> drop_bit 16 a = drop_bit 16 c"
    using passes_segment [of c n md] mem ch by blast
  then show "case ch of (c, n) \<Rightarrow> \<forall>a. c \<le> a \<and> a < c + n \<longrightarrow> drop_bit 16 a = drop_bit 16 c"
    unfolding ch prod.case .
qed

theorem extended_address_records_witness:
  "[(0xFFFE, 1), (0x10001, 2)] \<noteq> ([] :: image)
   \<and> hex_records [(0xFFFE, 1), (0x10001, 2)]
       = ['':020000040000FA'', '':02FFFE00010000'', '':020000040001F9'',
          '':020000000002FC'', '':00000001FF'']
   \<and> [drop_bit 16 (min_key [(0xFFFE, 1), (0x10001, 2)])..
        drop_bit 16 (max_key [(0xFFFE, 1), (0x10001, 2)])] = [0, 1]
   \<and> filter is_ext_record (hex_records [(0xFFFE, 1), (0x10001, 2)])
       = [gen_ext_record 0, gen_ext_record 1]
   \<and> gen_ext_record 0 = '':020000040000FA'' \<and> gen_ext_record 1 = '':020000040001F9''"
proof -
  have h: "[(0xFFFE, 1), (0x10001, 2)] \<noteq> ([] :: image)" by simp
  have r: "hex_records [(0xFFFE, 1), (0x10001, 2)]
       = ['':020000040000FA'', '':02FFFE00010000'', '':020000040001F9'',
          '':020000000002FC'', '':00000001FF'']"
    by code_simp
  have u: "[drop_bit 16 (min_key [(0xFFFE, 1), (0x10001, 2)])..
        drop_bit 16 (max_key [(0xFFFE, 1), (0x10001, 2)])] = [0, 1]"
    by code_simp
  have g: "gen_ext_record 0 = '':020000040000FA''" "gen_ext_record 1 = '':020000040001F9''"
    by code_simp+
  note T = extended_address_records [OF h]
  have "filter is_ext_record (hex_records [(0xFFFE, 1), (0x10001, 2)])
       = [gen_ext_record 0, gen_ext_record 1]"
    unfolding T [THEN conjunct2, THEN conjunct1] u by simp
  with h r u g show ?thesis by (intro conjI)
qed

text \<open>
  Claim C7, as amended. On a line that starts with a colon and whose byte count, offset
  and record type are read, parsing fails with \<open>ValueError\<close> when a Data record's line
  ends before the first digit of one of the bytes its byte count demands (fewer than
  2 * byte_count - 1 data characters), when an ExtendedLinearAddress record of byte
  count 2 has no data character at all, and when an ExtendedLinearAddress record has a
  byte count other than 2.
\<close>

theorem missing_data_rejected:
  assumes "strip raw = line" and "line \<noteq> []" and "hd line = CHR '':''"
    and "py_int16 (py_slice 1 3 line) = Some bc"
    and "py_int16 (py_slice 3 7 line) = Some off"
    and "py_int16 (py_slice 7 9 line) = Some rt"
  shows "(rt = 0x00 \<and> 0 < bc \<and> int (length line) < 9 + 2 * bc - 1 \<longrightarrow>
            parse_line raw (data, ext) = Inl InvalidLiteral)
       \<and> (rt = 0x04 \<and> bc = 2 \<and> length line \<le> 9 \<longrightarrow>
            parse_line raw (data, ext) = Inl InvalidLiteral)
       \<and> (rt = 0x04 \<and> bc \<noteq> 2 \<longrightarrow>
            parse_line raw (data, ext) = Inl InvalidExtLength)"
proof (intro conjI impI)
  note P = parse_line_header [OF assms, of data ext]
  {
    assume h: "rt = 0x00 \<and> 0 < bc \<and> int (length line) < 9 + 2 * bc - 1"
    define df where "df = py_slice 9 (9 + bc * 2) line"
    have "df = take (2 * nat bc) (drop 9 line)"
      unfolding df_def using h by (intro py_slice_data_field) simp
    then have "length df \<le> length line - 9" by simp
    with h have short: "length df \<le> 2 * nat (bc - 1)" by linarith
    have "py_slice ((bc - 1) * 2) ((bc - 1) * 2 + 2) df = take 2 (drop (2 * nat (bc - 1)) df)"
      using h by (intro py_slice_pair) simp
    also have "\<dots> = []" using short by simp
    finally have "py_int16 (py_slice ((bc - 1) * 2) ((bc - 1) * 2 + 2) df) = None"
      by (simp add: py_int16_empty)
    moreover have "bc - 1 \<in> set [0..bc - 1]" using h by simp
    ultimately have "store_data df (push_bit 16 ext + off) [0..bc - 1] data = Inl InvalidLiteral"
      by (rule store_data_fails [rotated])
    then show "parse_line raw (data, ext) = Inl InvalidLiteral"
      unfolding P df_def [symmetric] using h by simp
  }
  {
    assume h: "rt = 0x04 \<and> bc = 2 \<and> length line \<le> 9"
    have "py_slice 9 (9 + bc * 2) line = take (2 * nat bc) (drop 9 line)"
      using h by (intro py_slice_data_field) simp
    also have "\<dots> = []" using h by simp
    finally have "py_int16 (py_slice 9 (9 + bc * 2) line) = None"
      by (simp add: py_int16_empty)
    then show "parse_line raw (data, ext) = Inl InvalidLiteral"
      unfolding P using h by simp
  }
  {
    assume "rt = 0x04 \<and> bc \<noteq> 2"
    then show "parse_line raw (data, ext) = Inl InvalidExtLength"
      unfolding P by simp
  }
qed

theorem missing_data_rejected_witness:
  "strip '':02001000AB'' = '':02001000AB''
   \<and> py_int16 (py_slice 1 3 '':02001000AB'') = Some 2
   \<and> py_int16 (py_slice 3 7 '':02001000AB'') = Some 0x10
   \<and> py_int16 (py_slice 7 9 '':02001000AB'') = Some 0
   \<and> int (length '':02001000AB'') < 9 + 2 * 2 - 1
   \<and> parse_line '':02001000AB'' ([], 0) = Inl InvalidLiteral"
proof -
  have h1: "strip '':02001000AB'' = '':02001000AB''" by code_simp
  have h2: "'':02001000AB'' \<noteq> []" by simp
  have h3: "hd '':02001000AB'' = CHR '':''" by simp
  have h4: "py_int16 (py_slice 1 3 '':02001000AB'') = Some 2" by code_simp
  have h5: "py_int16 (py_slice 3 7 '':02001000AB'') = Some 0x10" by code_simp
  have h6: "py_int16 (py_slice 7 9 '':02001000AB'') = Some 0" by code_simp
  have h7: "(0::int) = 0x00 \<and> (0::int) < 2 \<and> int (length '':02001000AB'') < 9 + 2 * 2 - 1"
    by simp
  note T = missing_data_rejected [OF h1 h2 h3 h4 h5 h6, of "[]" 0, THEN conjunct1]
  from T h7 have "parse_line '':02001000AB'' ([], 0) = Inl InvalidLiteral"
    by (rule mp)
  with h1 h4 h5 h6 h7 show ?thesis by (intro conjI) simp_all
qed

text \<open>
  The claim as the specification states it fails: the byte count need not be the
  number of digit pairs present, and a data field with fewer characters than the byte
  count demands can be accepted. An ExtendedLinearAddress record of byte count 2 with a
  single data digit sets the extended address; a Data record of byte count 2 with three
  data digits stores two bytes; both in the middle of a file that parses.
\<close>

theorem short_data_field_counterexample:
  "parse_line '':020000041'' ([], 0) = Inr (Continue, [], 1)
   \<and> parse_line '':02001000ABC'' ([], 0) = Inr (Continue, [(0x10, 0xAB), (0x11, 0x0C)], 0)
   \<and> decode '':02001000ABC'' = Inr (Decoded (Record 2 0x10 0 [0xAB, 0x0C]))
   \<and> parse_intel_hex ['':020000041'', '':02001000ABC'', '':00000001FF'']
       = Inr [(0x10010, 0xAB), (0x10011, 0x0C)]"
  by code_simp

text \<open>
  Claim C8. Emission of an empty image fails with the error of line 45 before anything
  else happens: no record is computed and the file system is left as it was.
\<close>

theorem write_empty_image_fails:
  "write_data_as_hex [] output_file fs = (Some NoData, fs)"
  by (simp add: write_data_as_hex_def)




text \<open>
  Claim C10. Take a line whose first 9 + 2 * byte_count characters are the colon and
  hexadecimal digits (the fields byte count, offset, record type and data), after any
  leading white space. Whatever follows them, nothing, digits, other characters, has no
  influence on the result of parsing the line: it is the result for the line cut after
  the data field. A Data record is parsed with success and stores each of its data
  bytes at its address, leaving every other address as it was; an EndOfFile record
  ends the file, an ExtendedLinearAddress record of byte count 2 sets the extended
  address, and a record of any other type is skipped. The only line of this form that
  is refused is an ExtendedLinearAddress record whose byte count is not 2, which the
  source rejects in line 21 whatever its checksum.
\<close>

theorem checksum_field_ignored:
  assumes "list_all is_space ws"
    and "list_all is_hex h"
    and "length h = 8 + 2 * nat (hex_value (take 2 h))"
  shows "parse_line (ws @ CHR '':'' # h @ sfx) (data, ext) = parse_line (CHR '':'' # h) (data, ext)
    \<and> (hex_value (take 2 (drop 6 h)) = 0x00 \<longrightarrow>
          (\<exists>data'. parse_line (ws @ CHR '':'' # h @ sfx) (data, ext) = Inr (Continue, data', ext)
             \<and> (\<forall>i. 0 \<le> i \<and> i < hex_value (take 2 h) \<longrightarrow>
                   map_of data' (push_bit 16 ext + hex_value (take 4 (drop 2 h)) + i)
                     = Some (hex_value (take 2 (drop (8 + 2 * nat i) h))))
             \<and> (\<forall>a. a < push_bit 16 ext + hex_value (take 4 (drop 2 h))
                      \<or> push_bit 16 ext + hex_value (take 4 (drop 2 h)) + hex_value (take 2 h) \<le> a
                   \<longrightarrow> map_of data' a = map_of data a)))
    \<and> (hex_value (take 2 (drop 6 h)) = 0x04 \<and> hex_value (take 2 h) = 2 \<longrightarrow>
          parse_line (ws @ CHR '':'' # h @ sfx) (data, ext)
            = Inr (Continue, data, hex_value (drop 8 h)))
    \<and> (hex_value (take 2 (drop 6 h)) = 0x01 \<longrightarrow>
          parse_line (ws @ CHR '':'' # h @ sfx) (data, ext) = Inr (Break, data, ext))
    \<and> (hex_value (take 2 (drop 6 h)) \<noteq> 0x00 \<and> hex_value (take 2 (drop 6 h)) \<noteq> 0x01
        \<and> hex_value (take 2 (drop 6 h)) \<noteq> 0x04 \<longrightarrow>
          parse_line (ws @ CHR '':'' # h @ sfx) (data, ext) = Inr (Continue, data, ext))
    \<and> (hex_value (take 2 (drop 6 h)) = 0x04 \<and> hex_value (take 2 h) \<noteq> 2 \<longrightarrow>
          parse_line (ws @ CHR '':'' # h @ sfx) (data, ext) = Inl InvalidExtLength)"
proof -
  note P = parse_line_valid [OF assms, of sfx data ext]
  have Q: "parse_line (CHR '':'' # h) (data, ext) = parse_line (ws @ CHR '':'' # h @ sfx) (data, ext)"
  proof -
    have e: "list_all is_space []" by simp
    from parse_line_valid [OF e assms(2,3), of "[]" data ext] show ?thesis
      unfolding P by simp
  qed
  have data_case: "\<exists>data'. parse_line (ws @ CHR '':'' # h @ sfx) (data, ext) = Inr (Continue, data', ext)
             \<and> (\<forall>i. 0 \<le> i \<and> i < hex_value (take 2 h) \<longrightarrow>
                   map_of data' (push_bit 16 ext + hex_value (take 4 (drop 2 h)) + i)
                     = Some (hex_value (take 2 (drop (8 + 2 * nat i) h))))
             \<and> (\<forall>a. a < push_bit 16 ext + hex_value (take 4 (drop 2 h))
                      \<or> push_bit 16 ext + hex_value (take 4 (drop 2 h)) + hex_value (take 2 h) \<le> a
                   \<longrightarrow> map_of data' a = map_of data a)"
    if rt: "hex_value (take 2 (drop 6 h)) = 0x00"
  proof -
    from store_valid_data [OF assms(2,3) hex_value_nonneg,
        of "push_bit 16 ext + hex_value (take 4 (drop 2 h))" data]
    obtain data' where
      d: "store_data (drop 8 h) (push_bit 16 ext + hex_value (take 4 (drop 2 h)))
            [0..hex_value (take 2 h) - 1] data = Inr data'"
      and m: "\<forall>i. 0 \<le> i \<and> i < hex_value (take 2 h) \<longrightarrow>
                map_of data' (push_bit 16 ext + hex_value (take 4 (drop 2 h)) + i)
                  = Some (hex_value (take 2 (drop (8 + 2 * nat i) h)))"
      and o: "\<forall>a. a < push_bit 16 ext + hex_value (take 4 (drop 2 h))
                  \<or> push_bit 16 ext + hex_value (take 4 (drop 2 h)) + hex_value (take 2 h) \<le> a
                \<longrightarrow> map_of data' a = map_of data a"
      by blast
    have "parse_line (ws @ CHR '':'' # h @ sfx) (data, ext) = Inr (Continue, data', ext)"
      unfolding P using rt d by simp
    with m o show ?thesis by (intro exI conjI)
  qed
  show ?thesis
  proof (intro conjI impI)
    show "parse_line (ws @ CHR '':'' # h @ sfx) (data, ext) = parse_line (CHR '':'' # h) (data, ext)"
      by (rule Q [symmetric])
  next
    assume "hex_value (take 2 (drop 6 h)) = 0x00"
    then show "\<exists>data'. parse_line (ws @ CHR '':'' # h @ sfx) (data, ext) = Inr (Continue, data', ext)
             \<and> (\<forall>i. 0 \<le> i \<and> i < hex_value (take 2 h) \<longrightarrow>
                   map_of data' (push_bit 16 ext + hex_value (take 4 (drop 2 h)) + i)
                     = Some (hex_value (take 2 (drop (8 + 2 * nat i) h))))
             \<and> (\<forall>a. a < push_bit 16 ext + hex_value (take 4 (drop 2 h))
                      \<or> push_bit 16 ext + hex_value (take 4 (drop 2 h)) + hex_value (take 2 h) \<le> a
                   \<longrightarrow> map_of data' a = map_of data a)"
      by (rule data_case)
  next
    assume "hex_value (take 2 (drop 6 h)) = 0x04 \<and> hex_value (take 2 h) = 2"
    then show "parse_line (ws @ CHR '':'' # h @ sfx) (data, ext)
            = Inr (Continue, data, hex_value (drop 8 h))"
      unfolding P by simp
  next
    assume "hex_value (take 2 (drop 6 h)) = 0x01"
    then show "parse_line (ws @ CHR '':'' # h @ sfx) (data, ext) = Inr (Break, data, ext)"
      unfolding P by simp
  next
    assume "hex_value (take 2 (drop 6 h)) \<noteq> 0x00 \<and> hex_value (take 2 (drop 6 h)) \<noteq> 0x01
        \<and> hex_value (take 2 (drop 6 h)) \<noteq> 0x04"
    then show "parse_line (ws @ CHR '':'' # h @ sfx) (data, ext) = Inr (Continue, data, ext)"
      unfolding P by simp
  next
    assume "hex_value (take 2 (drop 6 h)) = 0x04 \<and> hex_value (take 2 h) \<noteq> 2"
    then show "parse_line (ws @ CHR '':'' # h @ sfx) (data, ext) = Inl InvalidExtLength"
      unfolding P by simp
  qed
qed

theorem checksum_field_ignored_witness:
  "list_all is_space '' ''
   \<and> list_all is_hex ''02001000abCD''
   \<and> length ''02001000abCD'' = 8 + 2 * nat (hex_value (take 2 ''02001000abCD''))
   \<and> hex_value (take 2 (drop 6 ''02001000abCD'')) = 0x00
   \<and> parse_line ('' '' @ CHR '':'' # ''02001000abCD'' @ ''zz, no checksum'') ([], 0)
       = parse_line (CHR '':'' # ''02001000abCD'') ([], 0)
   \<and> parse_line '':02001000abCD'' ([], 0) = Inr (Continue, [(0x10, 0xAB), (0x11, 0xCD)], 0)
   \<and> parse_line '' :02001000abCDzz, no checksum'' ([], 0)
       = Inr (Continue, [(0x10, 0xAB), (0x11, 0xCD)], 0)"
proof -
  have h1: "list_all is_space '' ''" by (simp add: is_space_def)
  have h2: "list_all is_hex ''02001000abCD''" by (simp add: is_hex_def digit_value_def)
  have h3: "length ''02001000abCD'' = 8 + 2 * nat (hex_value (take 2 ''02001000abCD''))"
    by (simp add: hex_value_def digit_value_def)
  have h4: "hex_value (take 2 (drop 6 ''02001000abCD'')) = 0x00"
    by (simp add: hex_value_def digit_value_def)
  have e: "parse_line '':02001000abCD'' ([], 0) = Inr (Continue, [(0x10, 0xAB), (0x11, 0xCD)], 0)"
    by code_simp
  note T = checksum_field_ignored [OF h1 h2 h3, of "''zz, no checksum''" "[]" 0, THEN conjunct1]
  have "parse_line '' :02001000abCDzz, no checksum'' ([], 0)
       = Inr (Continue, [(0x10, 0xAB), (0x11, 0xCD)], 0)"
    using T e by simp
  with h1 h2 h3 h4 T e show ?thesis by (intro conjI)
qed

end
